theory Spec2Isabelle
  imports Main
begin

section \<open>ChatClient: the framing protocol of \<^verbatim>\<open>validate.c\<close> and \<^verbatim>\<open>network.c\<close>\<close>

text \<open>
  The client frames a chat message as a three-character decimal byte count followed by
  the message, sends it with \<^verbatim>\<open>chatSend\<close>, and reads the peer's answer with
  \<^verbatim>\<open>chatReceive\<close>, which calls \<^verbatim>\<open>_chatReceiveHelper\<close> once for the count and once
  for the body. All buffers are C character arrays handled with the string functions of
  the C library, so the embedding keeps the arrays: a \<^verbatim>\<open>char[N]\<close> is a list of
  \<open>N\<close> bytes, and every library call that would write or read past the end of its array
  is an explicit \<open>abort\<close> value instead of a result.
\<close>

subsection \<open>Constants of \<^verbatim>\<open>validate.h\<close>\<close>

type_synonym byte = char

definition NUL :: byte where
  "NUL = CHR 0x00"

definition MAX_BYTES :: nat where
  "MAX_BYTES = 516"

definition MAX_MSG :: nat where
  "MAX_MSG = 500"

definition PREFIX_OFFSET :: nat where
  "PREFIX_OFFSET = 3"

subsection \<open>Character arrays and the C library\<close>

text \<open>
  The ways in which a call does not return normally. \<open>RecvOverrun\<close>: \<^verbatim>\<open>recv\<close>
  stored more bytes than the array it was given holds. \<open>StrOverrun\<close>: a string
  function wrote past the end of its destination array. \<open>StrUnterminated\<close>: a string
  function read an array that holds no NUL byte, so it read past its end.
  \<open>SendOverread\<close>: \<^verbatim>\<open>send\<close> was given more bytes than the array holds.
  \<open>UninitStatus\<close>: the value of a local variable was returned before anything was
  assigned to it. \<open>Exit n\<close>: the process called \<^verbatim>\<open>exit(n)\<close>.
\<close>

datatype abort =
  RecvOverrun | StrOverrun | StrUnterminated | SendOverread | UninitStatus | Exit int

text \<open>The string an array holds: its bytes before the first NUL.\<close>

definition cstr :: "byte list \<Rightarrow> byte list" where
  "cstr a = takeWhile (\<lambda>c. c \<noteq> NUL) a"

text \<open>\<^verbatim>\<open>strlen\<close>: \<open>None\<close> when the array holds no NUL.\<close>

definition strlen_c :: "byte list \<Rightarrow> nat option" where
  "strlen_c a = (if NUL \<in> set a then Some (length (cstr a)) else None)"

text \<open>
  \<^verbatim>\<open>strcat(dest, src)\<close> copies the string of \<open>src\<close> and its terminating NUL over
  \<open>dest\<close>, starting at the NUL that ends the string of \<open>dest\<close>.
\<close>

definition strcat_c :: "byte list \<Rightarrow> byte list \<Rightarrow> abort + byte list" where
  "strcat_c dest src =
     (case strlen_c dest of
        None \<Rightarrow> Inl StrUnterminated
      | Some d \<Rightarrow>
          (case strlen_c src of
             None \<Rightarrow> Inl StrUnterminated
           | Some s \<Rightarrow>
               if d + s + 1 \<le> length dest
               then Inr (take d dest @ take s src @ NUL # drop (d + s + 1) dest)
               else Inl StrOverrun))"

definition strcpy_c :: "byte list \<Rightarrow> byte list \<Rightarrow> abort + byte list" where
  "strcpy_c dest src =
     (case strlen_c src of
        None \<Rightarrow> Inl StrUnterminated
      | Some s \<Rightarrow>
          if s + 1 \<le> length dest
          then Inr (take s src @ NUL # drop (s + 1) dest)
          else Inl StrOverrun)"

text \<open>\<^verbatim>\<open>memset(dest, 0, n)\<close>; a negative \<open>n\<close> converts to a huge \<^verbatim>\<open>size_t\<close>.\<close>

definition memset0_c :: "byte list \<Rightarrow> int \<Rightarrow> abort + byte list" where
  "memset0_c dest n =
     (if 0 \<le> n \<and> nat n \<le> length dest
      then Inr (replicate (nat n) NUL @ drop (nat n) dest)
      else Inl StrOverrun)"

text \<open>
  \<^verbatim>\<open>printf\<close>'s conversion \<^verbatim>\<open>%03d\<close> of a non-negative number: its decimal digits,
  most significant first, padded with zeros on the left to a width of at least three.
  (The argument in the source is the \<^verbatim>\<open>size_t\<close> value \<^verbatim>\<open>strlen(msg)+1\<close>, at most the
  size of an array, read as an \<^verbatim>\<open>int\<close>.)
\<close>

definition digit_char :: "nat \<Rightarrow> char" where
  "digit_char d = ''0123456789'' ! d"

fun dec :: "nat \<Rightarrow> string" where
  "dec n = (if n < 10 then [digit_char n] else dec (n div 10) @ [digit_char (n mod 10)])"

declare dec.simps [simp del]

definition printf_03d :: "nat \<Rightarrow> string" where
  "printf_03d n = replicate (3 - length (dec n)) (CHR ''0'') @ dec n"

definition sprintf_03d :: "byte list \<Rightarrow> nat \<Rightarrow> abort + byte list" where
  "sprintf_03d dest n =
     (let ds = printf_03d n
      in if length ds + 1 \<le> length dest
         then Inr (ds @ NUL # drop (length ds + 1) dest)
         else Inl StrOverrun)"

text \<open>
  \<^verbatim>\<open>strtol(s, NULL, 10)\<close>: white space is skipped, an optional sign is read, then the
  longest run of decimal digits; with no digit the value is 0. The value is clamped to
  the range of a 64-bit \<^verbatim>\<open>long\<close>.
\<close>

definition isspace_c :: "char \<Rightarrow> bool" where
  "isspace_c c = (c \<in> set [CHR '' '', CHR 0x09, CHR 0x0A, CHR 0x0B, CHR 0x0C, CHR 0x0D])"

definition isdigit_c :: "char \<Rightarrow> bool" where
  "isdigit_c c = (c \<in> set ''0123456789'')"

definition digit_val :: "char \<Rightarrow> int" where
  "digit_val c = int (of_char c) - 48"

fun strtol_digits :: "int \<Rightarrow> string \<Rightarrow> int" where
  "strtol_digits acc [] = acc"
| "strtol_digits acc (c # cs) =
     (if isdigit_c c then strtol_digits (acc * 10 + digit_val c) cs else acc)"

definition clamp_long :: "int \<Rightarrow> int" where
  "clamp_long v = max (- (2 ^ 63)) (min (2 ^ 63 - 1) v)"

definition strtol :: "string \<Rightarrow> int" where
  "strtol s =
     (case dropWhile isspace_c s of
        [] \<Rightarrow> 0
      | c # r \<Rightarrow>
          if c = CHR ''-'' then clamp_long (- strtol_digits 0 r)
          else if c = CHR ''+'' then clamp_long (strtol_digits 0 r)
          else clamp_long (strtol_digits 0 (c # r)))"

text \<open>The conversion of a \<^verbatim>\<open>long\<close> argument to an \<^verbatim>\<open>int\<close> parameter (32 bits).\<close>

definition long_to_int :: "int \<Rightarrow> int" where
  "long_to_int v = (v + 2 ^ 31) mod 2 ^ 32 - 2 ^ 31"

subsection \<open>\<^verbatim>\<open>validate.c\<close>: the length check and the byte-count header\<close>

text \<open>
  \<^verbatim>\<open>_validateMsg(msg)\<close>: 1 when \<open>msg\<close> is not the null pointer (\<open>None\<close>) and its
  string has at most \<open>MAX_MSG\<close> characters, 0 otherwise.
\<close>

definition validateMsg :: "byte list option \<Rightarrow> abort + int" where
  "validateMsg msg =
     (case msg of
        None \<Rightarrow> Inr 0
      | Some a \<Rightarrow>
          (case strlen_c a of
             None \<Rightarrow> Inl StrUnterminated
           | Some n \<Rightarrow> if n \<le> MAX_MSG then Inr 1 else Inr 0))"

text \<open>
  \<^verbatim>\<open>_prependByteCountMsg(msg, msgLen)\<close>. The local array \<^verbatim>\<open>buffer[MAX_BYTES]\<close> is
  not initialised; its contents on entry are the argument \<open>buffer\<close>. The function
  prints \<^verbatim>\<open>strlen(msg)+1\<close> with \<^verbatim>\<open>%03d\<close> into \<open>buffer\<close>, appends \<open>msg\<close>, clears the
  first \<open>msgLen\<close> bytes of \<open>msg\<close> and copies \<open>buffer\<close> back. The result is the array
  \<open>msg\<close> on return.
\<close>

definition prependByteCountMsg :: "byte list \<Rightarrow> byte list \<Rightarrow> int \<Rightarrow> abort + byte list" where
  "prependByteCountMsg buffer msg msgLen =
     (case strlen_c msg of
        None \<Rightarrow> Inl StrUnterminated
      | Some n \<Rightarrow>
          (case sprintf_03d buffer (n + 1) of
             Inl a \<Rightarrow> Inl a
           | Inr buffer1 \<Rightarrow>
               (case strcat_c buffer1 msg of
                  Inl a \<Rightarrow> Inl a
                | Inr buffer2 \<Rightarrow>
                    (case memset0_c msg msgLen of
                       Inl a \<Rightarrow> Inl a
                     | Inr msg1 \<Rightarrow> strcpy_c msg1 buffer2))))"

text \<open>
  \<^verbatim>\<open>createValidatedMsg(handle, msg, msgBufferLen)\<close> reads the user's line from the
  standard input, which is the list of the bytes not yet read. The newline and the
  command that ends the session:
\<close>

definition NL :: byte where
  "NL = CHR 0x0A"

definition quit_command :: string where
  "quit_command = [CHR 0x5C, CHR ''q'', CHR ''u'', CHR ''i'', CHR ''t'']"

text \<open>\<^verbatim>\<open>sprintf(msg, "%s> ", handle)\<close>.\<close>

definition sprintf_prompt :: "byte list \<Rightarrow> byte list \<Rightarrow> abort + byte list" where
  "sprintf_prompt dest handle =
     (case strlen_c handle of
        None \<Rightarrow> Inl StrUnterminated
      | Some h \<Rightarrow>
          if h + 3 \<le> length dest
          then Inr (cstr handle @ ''> '' @ NUL # drop (h + 3) dest)
          else Inl StrOverrun)"

text \<open>
  \<^verbatim>\<open>fgets(s, n, stdin)\<close> reads at most \<open>n - 1\<close> bytes, stops after a newline, and
  stores what it has read and a NUL. With \<open>n \<le> 0\<close> or at the end of the input it
  returns the null pointer and leaves the array as it is. \<open>read_line k\<close> is the bytes read
  and the input left.
\<close>

fun read_line :: "nat \<Rightarrow> byte list \<Rightarrow> byte list \<times> byte list" where
  "read_line 0 input = ([], input)"
| "read_line (Suc k) [] = ([], [])"
| "read_line (Suc k) (c # cs) =
     (if c = NL then ([c], cs) else (case read_line k cs of (l, r) \<Rightarrow> (c # l, r)))"

definition fgets_c :: "byte list \<Rightarrow> int \<Rightarrow> byte list \<Rightarrow> abort + byte list \<times> byte list" where
  "fgets_c s n input =
     (if n \<le> 0 \<or> input = [] then Inr (s, input)
      else
        (case read_line (nat (n - 1)) input of
           (l, r) \<Rightarrow>
             if length l + 1 \<le> length s then Inr (l @ NUL # drop (length l + 1) s, r)
             else Inl StrOverrun))"

text \<open>
  \<^verbatim>\<open>while (fgetc(stdin) != '\n') { }\<close>: at the end of the input \<^verbatim>\<open>fgetc\<close> keeps
  returning \<^verbatim>\<open>EOF\<close> and the loop does not end.
\<close>

partial_function (option) skip_line :: "byte list \<Rightarrow> byte list option" where
  "skip_line input =
     (case input of
        [] \<Rightarrow> skip_line []
      | c # cs \<Rightarrow> if c = NL then Some cs else skip_line cs)"

declare skip_line.simps [code]

text \<open>
  The \<^verbatim>\<open>do ... while (!_validateMsg(buffer))\<close> loop of \<^verbatim>\<open>createValidatedMsg\<close> and the
  call of \<^verbatim>\<open>_prependByteCountMsg\<close> after it. The local \<^verbatim>\<open>buffer[MAX_MSG*2]\<close> is
  cleared at the start of every round; \<open>junk\<close> is what the array of
  \<^verbatim>\<open>_prependByteCountMsg\<close> holds on entry. The prompt that \<^verbatim>\<open>printf\<close> writes is not
  part of the model. The result is the returned value (0 after \<^verbatim>\<open>\quit\<close>, else 1), the
  array \<open>msg\<close> and the input left.
\<close>

partial_function (option) createValidatedMsg ::
  "byte list \<Rightarrow> byte list \<Rightarrow> byte list \<Rightarrow> int \<Rightarrow> byte list
     \<Rightarrow> (abort + int \<times> byte list \<times> byte list) option"
where
  "createValidatedMsg junk handle msg msgBufferLen input =
     (case memset0_c msg msgBufferLen of
        Inl a \<Rightarrow> Some (Inl a)
      | Inr msg1 \<Rightarrow>
     (case sprintf_prompt msg1 handle of
        Inl a \<Rightarrow> Some (Inl a)
      | Inr msg2 \<Rightarrow>
     (case strlen_c msg2 of
        None \<Rightarrow> Some (Inl StrUnterminated)
      | Some promptLen \<Rightarrow>
     (case fgets_c (replicate (MAX_MSG * 2) NUL) (int (MAX_MSG * 2) - int promptLen) input of
        Inl a \<Rightarrow> Some (Inl a)
      | Inr (buffer1, input1) \<Rightarrow>
     (case strcat_c msg2 buffer1 of
        Inl a \<Rightarrow> Some (Inl a)
      | Inr msg3 \<Rightarrow>
     Option.bind
       (if NL \<in> set (cstr msg3)
        then Some (msg3[length (cstr msg3) - 1 := NUL], input1)
        else map_option (Pair msg3) (skip_line input1))
       (\<lambda>(msg4, input2).
          (case strlen_c buffer1 of
             None \<Rightarrow> Some (Inl StrUnterminated)
           | Some bufferLen \<Rightarrow>
               let buffer2 =
                     (if 0 < bufferLen \<and> buffer1 ! (bufferLen - 1) = NL
                      then buffer1[bufferLen - 1 := NUL] else buffer1)
               in if cstr buffer2 = quit_command then Some (Inr (0, msg4, input2))
                  else
                    (case validateMsg (Some buffer2) of
                       Inl a \<Rightarrow> Some (Inl a)
                     | Inr valid \<Rightarrow>
                         if valid = 0
                         then createValidatedMsg junk handle msg4 msgBufferLen input2
                         else
                           (case prependByteCountMsg junk msg4 (int (length (cstr buffer2))) of
                              Inl a \<Rightarrow> Some (Inl a)
                            | Inr msg5 \<Rightarrow> Some (Inr (1, msg5, input2)))))))))))"

declare createValidatedMsg.simps [code]

subsection \<open>\<^verbatim>\<open>network.c\<close>: sending\<close>

text \<open>
  The socket is a state \<open>'s\<close> with the two system calls as parameters. \<^verbatim>\<open>send\<close> is
  offered the unsent bytes and answers how many of them it took, or fails with -1.
\<close>

datatype send_result = Sent nat | SendError

text \<open>
  The counters \<^verbatim>\<open>totalSent\<close> and \<^verbatim>\<open>bytesReceived\<close> are C \<^verbatim>\<open>int\<close>s and are
  integers here. With system calls that keep to their contract they stay between minus
  the number of failed reads and \<open>msgLen\<close>, inside the range of \<^verbatim>\<open>int\<close> for any run
  with fewer than \<open>2^31 - msgLen\<close> failed reads.
\<close>

text \<open>
  \<^verbatim>\<open>chatSend(sockfd, message, msgLen)\<close>: the loop
  \<^verbatim>\<open>while (totalSent < msgLen)\<close>. \<open>wire\<close> collects the bytes \<^verbatim>\<open>send\<close> has
  taken, in order. A failing \<^verbatim>\<open>send\<close> ends the process with \<^verbatim>\<open>exit(-1)\<close>. The
  loop need not end (a \<^verbatim>\<open>send\<close> that keeps taking nothing), so the result is an option.
\<close>

partial_function (option) chatSend_loop ::
  "('s \<Rightarrow> byte list \<Rightarrow> send_result \<times> 's) \<Rightarrow> 's \<Rightarrow> byte list \<Rightarrow> int \<Rightarrow> int \<Rightarrow> byte list
     \<Rightarrow> (abort + byte list \<times> 's) option"
where
  "chatSend_loop send sockfd message msgLen totalSent wire =
     (if totalSent < msgLen then
        if int (length message) < msgLen then Some (Inl SendOverread)
        else
          (case send sockfd (take (nat (msgLen - totalSent)) (drop (nat totalSent) message)) of
             (SendError, sockfd') \<Rightarrow> Some (Inl (Exit (- 1)))
           | (Sent currSent, sockfd') \<Rightarrow>
               chatSend_loop send sockfd' message msgLen (totalSent + int currSent)
                 (wire @ take currSent (drop (nat totalSent) message)))
      else Some (Inr (wire, sockfd)))"

declare chatSend_loop.simps [code]

definition chatSend ::
  "('s \<Rightarrow> byte list \<Rightarrow> send_result \<times> 's) \<Rightarrow> 's \<Rightarrow> byte list \<Rightarrow> int
     \<Rightarrow> (abort + byte list \<times> 's) option"
where
  "chatSend send sockfd message msgLen = chatSend_loop send sockfd message msgLen 0 []"

text \<open>The call of \<^verbatim>\<open>main\<close>: \<^verbatim>\<open>chatSend(sockfd, buffer, strlen(buffer)+1)\<close>.\<close>

definition main_send ::
  "('s \<Rightarrow> byte list \<Rightarrow> send_result \<times> 's) \<Rightarrow> 's \<Rightarrow> byte list \<Rightarrow> (abort + byte list \<times> 's) option"
where
  "main_send send sockfd buffer =
     (case strlen_c buffer of
        None \<Rightarrow> Some (Inl StrUnterminated)
      | Some n \<Rightarrow> chatSend send sockfd buffer (int n + 1))"

subsection \<open>\<^verbatim>\<open>network.c\<close>: receiving\<close>

text \<open>
  \<^verbatim>\<open>recv\<close> is asked for at most \<open>len\<close> bytes and answers with the bytes it stored at
  the start of the array, or fails with -1 and stores nothing. Its return value is the
  number of bytes, 0 when the peer has shut the connection down.
\<close>

datatype recv_result = Recvd "byte list" | RecvError

fun recv_status :: "recv_result \<Rightarrow> int" where
  "recv_status (Recvd bs) = int (length bs)"
| "recv_status RecvError = - 1"

text \<open>The scratch array after \<^verbatim>\<open>memset(buffer, 0, sizeof buffer)\<close> and \<^verbatim>\<open>recv\<close>.\<close>

fun recv_store :: "recv_result \<Rightarrow> abort + byte list" where
  "recv_store (Recvd bs) =
     (if length bs \<le> MAX_BYTES then Inr (bs @ replicate (MAX_BYTES - length bs) NUL)
      else Inl RecvOverrun)"
| "recv_store RecvError = Inr (replicate MAX_BYTES NUL)"

text \<open>
  \<^verbatim>\<open>_chatReceiveHelper(sockfd, message, msgLen)\<close>: the loop
  \<^verbatim>\<open>while (bytesReceived < msgLen)\<close>. \<open>status\<close> is \<open>None\<close> until the first
  assignment. The result is the returned status, the array \<open>message\<close> and the socket.
\<close>

partial_function (option) chatReceiveHelper_loop ::
  "('s \<Rightarrow> nat \<Rightarrow> recv_result \<times> 's) \<Rightarrow> 's \<Rightarrow> byte list \<Rightarrow> int \<Rightarrow> int \<Rightarrow> int option
     \<Rightarrow> (abort + int \<times> byte list \<times> 's) option"
where
  "chatReceiveHelper_loop recv sockfd message msgLen bytesReceived status =
     (if bytesReceived < msgLen then
        (case recv sockfd (nat (msgLen - bytesReceived)) of
           (r, sockfd') \<Rightarrow>
             (case recv_store r of
                Inl a \<Rightarrow> Some (Inl a)
              | Inr buffer \<Rightarrow>
                  if recv_status r = 0 then Some (Inr (0, message, sockfd'))
                  else
                    (case strcat_c message buffer of
                       Inl a \<Rightarrow> Some (Inl a)
                     | Inr message' \<Rightarrow>
                         chatReceiveHelper_loop recv sockfd' message' msgLen
                           (bytesReceived + recv_status r) (Some (recv_status r)))))
      else
        (case status of
           None \<Rightarrow> Some (Inl UninitStatus)
         | Some st \<Rightarrow> Some (Inr (st, message, sockfd))))"

declare chatReceiveHelper_loop.simps [code]

definition chatReceiveHelper ::
  "('s \<Rightarrow> nat \<Rightarrow> recv_result \<times> 's) \<Rightarrow> 's \<Rightarrow> byte list \<Rightarrow> int
     \<Rightarrow> (abort + int \<times> byte list \<times> 's) option"
where
  "chatReceiveHelper recv sockfd message msgLen =
     chatReceiveHelper_loop recv sockfd message msgLen 0 None"

text \<open>
  \<^verbatim>\<open>chatReceive(sockfd, message)\<close>: the arrays \<^verbatim>\<open>header[PREFIX_OFFSET+1]\<close> and
  \<^verbatim>\<open>body[MAX_BYTES]\<close> are cleared, the header is read, \<^verbatim>\<open>strtol\<close> turns it into the
  length of the body, the body is read and copied to the caller's array.
\<close>

definition chatReceive ::
  "('s \<Rightarrow> nat \<Rightarrow> recv_result \<times> 's) \<Rightarrow> 's \<Rightarrow> byte list \<Rightarrow> (abort + int \<times> byte list \<times> 's) option"
where
  "chatReceive recv sockfd message =
     (case chatReceiveHelper recv sockfd (replicate (PREFIX_OFFSET + 1) NUL) (int PREFIX_OFFSET) of
        None \<Rightarrow> None
      | Some (Inl a) \<Rightarrow> Some (Inl a)
      | Some (Inr (status, header, sockfd')) \<Rightarrow>
          if status = 0 then Some (Inr (status, message, sockfd'))
          else
            (case strlen_c header of
               None \<Rightarrow> Some (Inl StrUnterminated)
             | Some _ \<Rightarrow>
                 (case chatReceiveHelper recv sockfd' (replicate MAX_BYTES NUL)
                         (long_to_int (strtol (cstr header))) of
                    None \<Rightarrow> None
                  | Some (Inl a) \<Rightarrow> Some (Inl a)
                  | Some (Inr (status', body, sockfd'')) \<Rightarrow>
                      (case strcpy_c message body of
                         Inl a \<Rightarrow> Some (Inl a)
                       | Inr message' \<Rightarrow> Some (Inr (status', message', sockfd''))))))"

subsection \<open>A scripted peer\<close>

text \<open>
  What arrives at the socket, in order: a segment of bytes, or a failure that makes one
  \<^verbatim>\<open>recv\<close> return -1. \<^verbatim>\<open>recv\<close> hands out at most \<open>len\<close> bytes of the first segment
  and leaves the rest of it for the next call. An empty segment is a read of zero bytes,
  and so is every read after the script has ended: the peer has closed the connection.
\<close>

datatype event = Segment "byte list" | Failure

fun recv_script :: "event list \<Rightarrow> nat \<Rightarrow> recv_result \<times> event list" where
  "recv_script [] len = (Recvd [], [])"
| "recv_script (Failure # es) len = (RecvError, es)"
| "recv_script (Segment bs # es) len =
     (if length bs \<le> len then (Recvd bs, es)
      else (Recvd (take len bs), Segment (drop len bs) # es))"

text \<open>The bytes a script delivers before its first read of zero bytes or failure.\<close>

fun avail :: "event list \<Rightarrow> byte list" where
  "avail [] = []"
| "avail (Failure # es) = []"
| "avail (Segment bs # es) = (if bs = [] then [] else bs @ avail es)"

text \<open>After those bytes the script answers with a read of zero bytes.\<close>

fun closes :: "event list \<Rightarrow> bool" where
  "closes [] = True"
| "closes (Failure # es) = False"
| "closes (Segment bs # es) = (if bs = [] then True else closes es)"

text \<open>A \<^verbatim>\<open>send\<close> that takes at most \<open>k\<close> bytes per call; the state counts the calls.\<close>

definition send_upto :: "nat \<Rightarrow> nat \<Rightarrow> byte list \<Rightarrow> send_result \<times> nat" where
  "send_upto k calls bs = (Sent (min k (length bs)), Suc calls)"

text \<open>
  The contract of a \<^verbatim>\<open>send\<close> that transfers at least one byte of what it is offered,
  and never more than it is offered.
\<close>

definition makes_progress :: "('s \<Rightarrow> byte list \<Rightarrow> send_result \<times> 's) \<Rightarrow> bool" where
  "makes_progress send =
     (\<forall>s bs. bs \<noteq> [] \<longrightarrow> (\<exists>k s'. send s bs = (Sent k, s') \<and> 0 < k \<and> k \<le> length bs))"

text \<open>
  A socket that keeps a record of its \<^verbatim>\<open>send\<close> calls, in order: the bytes each call was
  offered and what it returned. The first component is the state of the \<^verbatim>\<open>send\<close>
  underneath.
\<close>

definition send_traced ::
  "('s \<Rightarrow> byte list \<Rightarrow> send_result \<times> 's) \<Rightarrow> 's \<times> (byte list \<times> send_result) list \<Rightarrow> byte list
     \<Rightarrow> send_result \<times> ('s \<times> (byte list \<times> send_result) list)"
where
  "send_traced send st bs =
     (case send (fst st) bs of (r, s') \<Rightarrow> (r, (s', snd st @ [(bs, r)])))"

text \<open>
  A record in which every call was offered the whole unsent remainder \<open>rem\<close> of a
  message, took at least one byte of it, and the calls went on until nothing was left.
\<close>

fun sends_remainder :: "byte list \<Rightarrow> (byte list \<times> send_result) list \<Rightarrow> bool" where
  "sends_remainder rem [] = (rem = [])"
| "sends_remainder rem ((offered, Sent k) # calls) =
     (offered = rem \<and> rem \<noteq> [] \<and> 0 < k \<and> k \<le> length rem \<and> sends_remainder (drop k rem) calls)"
| "sends_remainder rem ((offered, SendError) # calls) = False"

text \<open>The bytes the calls of a record have taken, in order.\<close>

fun bytes_taken :: "(byte list \<times> send_result) list \<Rightarrow> byte list" where
  "bytes_taken [] = []"
| "bytes_taken ((offered, Sent k) # calls) = take k offered @ bytes_taken calls"
| "bytes_taken ((offered, SendError) # calls) = bytes_taken calls"

subsection \<open>Reading results\<close>

text \<open>The decimal representation of a number below 1000, padded with zeros to three places.\<close>

definition three_digits :: "nat \<Rightarrow> string" where
  "three_digits n = [digit_char (n div 100), digit_char (n div 10 mod 10), digit_char (n mod 10)]"


text \<open>The string left in the caller's array, if the call returned.\<close>

fun returned_string :: "(abort + int \<times> byte list \<times> 's) option \<Rightarrow> byte list option" where
  "returned_string (Some (Inr (status, message, sockfd))) = Some (cstr message)"
| "returned_string (Some (Inl a)) = None"
| "returned_string None = None"

section \<open>Properties\<close>

subsection \<open>Strings in arrays\<close>

lemma cstr_append_NUL: "NUL \<notin> set p \<Longrightarrow> cstr (p @ NUL # r) = p"
  by (induction p) (auto simp: cstr_def)

lemma cstr_no_NUL: "NUL \<notin> set (cstr a)"
  unfolding cstr_def by (metis (mono_tags, lifting) set_takeWhileD)

lemma cstr_take: "cstr a = take (length (cstr a)) a"
  unfolding cstr_def by (rule takeWhile_eq_take)

lemma cstr_split: "NUL \<in> set a \<Longrightarrow> a = cstr a @ NUL # drop (length (cstr a) + 1) a"
proof -
  assume h: "NUL \<in> set a"
  have "a = takeWhile (\<lambda>c. c \<noteq> NUL) a @ dropWhile (\<lambda>c. c \<noteq> NUL) a" by simp
  moreover have "dropWhile (\<lambda>c. c \<noteq> NUL) a \<noteq> []" using h by (simp add: dropWhile_eq_Nil_conv) 
  moreover have "hd (dropWhile (\<lambda>c. c \<noteq> NUL) a) = NUL" using h
    by (metis (mono_tags, lifting) calculation(2) hd_dropWhile)
  ultimately obtain t where t: "a = cstr a @ NUL # t"
    unfolding cstr_def by (metis list.collapse)
  have "drop (length (cstr a) + 1) a = drop (length (cstr a) + 1) (cstr a @ NUL # t)"
    using t by simp
  also have "\<dots> = t" by simp
  finally show ?thesis using t by simp
qed

lemma cstr_length_less: "NUL \<in> set a \<Longrightarrow> length (cstr a) < length a"
proof -
  assume "NUL \<in> set a"
  then have "length a = length (cstr a @ NUL # drop (length (cstr a) + 1) a)"
    using cstr_split [of a] by simp
  then show ?thesis by simp
qed

lemma strlen_c_Some: "strlen_c a = Some n \<longleftrightarrow> NUL \<in> set a \<and> n = length (cstr a)"
  by (auto simp: strlen_c_def)

lemma strlen_c_None: "strlen_c a = None \<longleftrightarrow> NUL \<notin> set a"
  by (auto simp: strlen_c_def)

lemma strcat_c_ok:
  assumes "NUL \<in> set dest" "NUL \<in> set src"
    and "length (cstr dest) + length (cstr src) + 1 \<le> length dest"
  shows "\<exists>r. strcat_c dest src = Inr r \<and> cstr r = cstr dest @ cstr src
           \<and> length r = length dest \<and> NUL \<in> set r"
proof -
  let ?d = "length (cstr dest)" and ?s = "length (cstr src)"
  let ?r = "take ?d dest @ take ?s src @ NUL # drop (?d + ?s + 1) dest"
  have eq: "strcat_c dest src = Inr ?r"
    using assms by (simp add: strcat_c_def strlen_c_def)
  have t: "take ?d dest = cstr dest" "take ?s src = cstr src"
    using cstr_take [of dest] cstr_take [of src] by simp_all
  have "cstr ?r = cstr dest @ cstr src"
    using cstr_append_NUL [of "cstr dest @ cstr src"] cstr_no_NUL [of dest] cstr_no_NUL [of src]
    by (simp add: t)
  moreover have "length ?r = length dest"
    using assms(3) by (simp add: t)
  ultimately show ?thesis using eq by auto
qed

lemma strcat_c_overrun:
  assumes "NUL \<in> set dest" "NUL \<in> set src"
    and "length dest < length (cstr dest) + length (cstr src) + 1"
  shows "strcat_c dest src = Inl StrOverrun"
  using assms by (simp add: strcat_c_def strlen_c_def)

lemma strcpy_c_ok:
  assumes "NUL \<in> set src" "length (cstr src) + 1 \<le> length dest"
  shows "\<exists>r. strcpy_c dest src = Inr r \<and> cstr r = cstr src \<and> length r = length dest
            \<and> NUL \<in> set r \<and> take (length (cstr src) + 1) r = cstr src @ [NUL]"
proof -
  let ?s = "length (cstr src)"
  let ?r = "take ?s src @ NUL # drop (?s + 1) dest"
  have eq: "strcpy_c dest src = Inr ?r"
    using assms by (simp add: strcpy_c_def strlen_c_def)
  have t: "take ?s src = cstr src" using cstr_take [of src] by simp
  have "cstr ?r = cstr src"
    using cstr_append_NUL [of "cstr src"] cstr_no_NUL [of src] by (simp add: t)
  moreover have "length ?r = length dest" using assms(2) by (simp add: t)
  moreover have "take (?s + 1) ?r = cstr src @ [NUL]" by (simp add: t)
  ultimately show ?thesis using eq by auto
qed


lemma lt10_cases: "(d::nat) < 10 \<Longrightarrow> d \<in> {0,1,2,3,4,5,6,7,8,9}"
  by auto

lemma digit_char_isdigit: "d < 10 \<Longrightarrow> isdigit_c (digit_char d)"
  apply (drule lt10_cases)
  apply (simp add: digit_char_def isdigit_c_def)
  apply (elim disjE; simp)
  done

lemma digit_char_val: "d < 10 \<Longrightarrow> digit_val (digit_char d) = int d"
  apply (drule lt10_cases)
  apply (simp add: digit_char_def digit_val_def)
  apply (elim disjE; simp)
  done

lemma digit_char_plain:
  "d < 10 \<Longrightarrow> digit_char d \<noteq> NUL \<and> \<not> isspace_c (digit_char d)
     \<and> digit_char d \<noteq> CHR ''-'' \<and> digit_char d \<noteq> CHR ''+''"
  apply (drule lt10_cases)
  apply (simp add: digit_char_def NUL_def isspace_c_def)
  apply (elim disjE; simp)
  done

lemma decimal_places: "(n::nat) = (n div 100 * 10 + n div 10 mod 10) * 10 + n mod 10"
proof -
  have "n div 100 = n div 10 div 10" by (simp add: div_mult2_eq)
  then show ?thesis by simp
qed

lemma dec_lt10: "n < 10 \<Longrightarrow> dec n = [digit_char n]"
  by (simp add: dec.simps)

lemma dec_ge10: "10 \<le> n \<Longrightarrow> dec n = dec (n div 10) @ [digit_char (n mod 10)]"
  by (subst dec.simps) simp

lemma printf_03d_digits:
  assumes "n < 1000"
  shows "printf_03d n = [digit_char (n div 100), digit_char (n div 10 mod 10), digit_char (n mod 10)]"
proof -
  consider "n < 10" | "10 \<le> n" "n < 100" | "100 \<le> n" by linarith
  then show ?thesis
  proof cases
    case 1
    then show ?thesis
      by (simp add: printf_03d_def dec_lt10 digit_char_def numeral_3_eq_3)
  next
    case 2
    then have "dec n = [digit_char (n div 10), digit_char (n mod 10)]"
      by (simp add: dec_ge10 dec_lt10)
    moreover have "n div 100 = 0" using 2 by simp
    moreover have "n div 10 mod 10 = n div 10" using 2 by simp
    ultimately show ?thesis
      by (simp add: printf_03d_def digit_char_def)
  next
    case 3
    have a: "10 \<le> n div 10" "n div 10 div 10 < 10" using 3 assms by auto
    have "n div 10 div 10 = n div 100" by (simp add: div_mult2_eq)
    then have "dec n = [digit_char (n div 100), digit_char (n div 10 mod 10), digit_char (n mod 10)]"
      using 3 a by (simp add: dec_ge10 [of n] dec_ge10 [of "n div 10"] dec_lt10)
    then show ?thesis by (simp add: printf_03d_def)
  qed
qed

lemma dec_length: "0 < length (dec n)"
  by (subst dec.simps) simp

lemma dec_no_NUL: "NUL \<notin> set (dec n)"
proof (induction n rule: dec.induct)
  case (1 n)
  show ?case
  proof (cases "n < 10")
    case True
    then have "dec n = [digit_char n]" by (rule dec_lt10)
    moreover have "digit_char n \<noteq> NUL" using True digit_char_plain by blast
    ultimately show ?thesis by auto
  next
    case False
    then have d: "dec n = dec (n div 10) @ [digit_char (n mod 10)]" by (simp add: dec_ge10)
    have "digit_char (n mod 10) \<noteq> NUL" using digit_char_plain [of "n mod 10"] by simp
    moreover have "NUL \<notin> set (dec (n div 10))" using 1 False by blast
    ultimately show ?thesis unfolding d by auto
  qed
qed

lemma printf_03d_no_NUL: "NUL \<notin> set (printf_03d n)"
  using dec_no_NUL [of n] by (auto simp: printf_03d_def NUL_def)

lemma printf_03d_length: "n < 1000 \<Longrightarrow> length (printf_03d n) = 3"
  by (simp add: printf_03d_digits)

lemma strtol_printf_03d:
  assumes "n < 1000"
  shows "strtol (printf_03d n) = int n"
proof -
  let ?a = "n div 100" and ?b = "n div 10 mod 10" and ?c = "n mod 10"
  have lt: "?a < 10" "?b < 10" "?c < 10" using assms by auto
  have "int n = int ((?a * 10 + ?b) * 10 + ?c)"
    using decimal_places [of n] by simp
  then have n: "int n = (int ?a * 10 + int ?b) * 10 + int ?c" by simp
  have "strtol (printf_03d n) = clamp_long ((int ?a * 10 + int ?b) * 10 + int ?c)"
    using digit_char_plain [OF lt(1)]
    by (simp add: printf_03d_digits [OF assms] strtol_def
        digit_char_isdigit [OF lt(1)] digit_char_isdigit [OF lt(2)] digit_char_isdigit [OF lt(3)]
        digit_char_val [OF lt(1)] digit_char_val [OF lt(2)] digit_char_val [OF lt(3)])
  then have "strtol (printf_03d n) = clamp_long (int n)" using n by simp
  then show ?thesis using assms by (simp add: clamp_long_def)
qed

lemma long_to_int_id: "- (2 ^ 31) \<le> v \<Longrightarrow> v < 2 ^ 31 \<Longrightarrow> long_to_int v = v"
  by (simp add: long_to_int_def)

subsection \<open>The byte-count header\<close>

lemma printf_03d_length_ge: "3 \<le> length (printf_03d n)"
  by (simp add: printf_03d_def)

lemma sprintf_03d_ok:
  assumes "n < 1000" "4 \<le> length dest"
  shows "\<exists>r. sprintf_03d dest n = Inr r \<and> cstr r = printf_03d n \<and> length r = length dest
           \<and> NUL \<in> set r"
proof -
  let ?r = "printf_03d n @ NUL # drop 4 dest"
  have "sprintf_03d dest n = Inr ?r"
    using assms by (simp add: sprintf_03d_def Let_def printf_03d_length)
  moreover have "cstr ?r = printf_03d n"
    by (rule cstr_append_NUL) (rule printf_03d_no_NUL)
  moreover have "length ?r = length dest"
    using assms by (simp add: printf_03d_length)
  ultimately show ?thesis by auto
qed

lemma memset0_c_ok:
  assumes "0 \<le> n" "nat n \<le> length dest"
  shows "\<exists>r. memset0_c dest n = Inr r \<and> length r = length dest"
  using assms by (simp add: memset0_c_def)

lemma prependByteCountMsg_ok:
  assumes msg: "NUL \<in> set msg"
    and buf: "length buffer = MAX_BYTES"
    and fit: "length (cstr msg) + 4 \<le> MAX_BYTES" "length (cstr msg) + 4 \<le> length msg"
    and len: "0 \<le> msgLen" "nat msgLen \<le> length msg"
  shows "\<exists>r. prependByteCountMsg buffer msg msgLen = Inr r
           \<and> cstr r = printf_03d (length (cstr msg) + 1) @ cstr msg
           \<and> length r = length msg \<and> NUL \<in> set r"
proof -
  let ?n = "length (cstr msg)"
  have n: "strlen_c msg = Some ?n" using msg by (simp add: strlen_c_def)
  have small: "?n + 1 < 1000" using fit(1) by (simp add: MAX_BYTES_def)
  obtain b1 where b1: "sprintf_03d buffer (?n + 1) = Inr b1" "cstr b1 = printf_03d (?n + 1)"
      "length b1 = length buffer" "NUL \<in> set b1"
    using sprintf_03d_ok [OF small, of buffer] buf by (auto simp: MAX_BYTES_def)
  have "length (cstr b1) + length (cstr msg) + 1 \<le> length b1"
    using b1 buf fit(1) small by (simp add: printf_03d_length)
  then obtain b2 where b2: "strcat_c b1 msg = Inr b2" "cstr b2 = cstr b1 @ cstr msg"
      "length b2 = length b1" "NUL \<in> set b2"
    using strcat_c_ok [OF b1(4) msg] by blast
  obtain m1 where m1: "memset0_c msg msgLen = Inr m1" "length m1 = length msg"
    using memset0_c_ok [OF len] by blast
  have "length (cstr b2) + 1 \<le> length m1"
    using b2 b1 m1 fit(2) small by (simp add: printf_03d_length)
  then obtain r where r: "strcpy_c m1 b2 = Inr r" "cstr r = cstr b2" "length r = length m1"
      "NUL \<in> set r"
    using strcpy_c_ok [OF b2(4)] by blast
  have "prependByteCountMsg buffer msg msgLen = Inr r"
    using n b1(1) b2(1) m1(1) r(1) by (simp add: prependByteCountMsg_def)
  then show ?thesis using r b2 b1 m1 by simp
qed

lemma prependByteCountMsg_overrun:
  assumes msg: "NUL \<in> set msg"
    and buf: "length buffer = MAX_BYTES"
    and big: "MAX_BYTES < length (cstr msg) + 4"
  shows "prependByteCountMsg buffer msg msgLen = Inl StrOverrun"
proof -
  let ?n = "length (cstr msg)"
  let ?ds = "printf_03d (?n + 1)"
  have n: "strlen_c msg = Some ?n" using msg by (simp add: strlen_c_def)
  show ?thesis
  proof (cases "length ?ds + 1 \<le> length buffer")
    case False
    then show ?thesis by (simp add: prependByteCountMsg_def n sprintf_03d_def Let_def)
  next
    case True
    let ?b1 = "?ds @ NUL # drop (length ?ds + 1) buffer"
    have b1: "sprintf_03d buffer (?n + 1) = Inr ?b1"
      using True by (simp add: sprintf_03d_def Let_def)
    have c: "cstr ?b1 = ?ds" by (rule cstr_append_NUL) (rule printf_03d_no_NUL)
    have l: "length ?b1 = MAX_BYTES" using True buf by simp
    have "length ?b1 < length (cstr ?b1) + length (cstr msg) + 1"
      unfolding c l using big printf_03d_length_ge [of "?n + 1"] by linarith
    then have "strcat_c ?b1 msg = Inl StrOverrun"
      using strcat_c_overrun [of ?b1 msg] msg by simp
    then show ?thesis using n b1 by (simp add: prependByteCountMsg_def)
  qed
qed

subsection \<open>Sending\<close>

lemma chatSend_loop_complete:
  assumes prog: "makes_progress send"
    and len: "msgLen \<le> int (length message)"
    and pos: "0 \<le> totalSent"
  shows "\<exists>s'. chatSend_loop send s message msgLen totalSent wire =
           Some (Inr (wire @ take (nat (msgLen - totalSent)) (drop (nat totalSent) message), s'))"
  using pos
proof (induction "nat (msgLen - totalSent)" arbitrary: totalSent s wire rule: less_induct)
  case less
  show ?case
  proof (cases "totalSent < msgLen")
    case False
    then show ?thesis by (subst chatSend_loop.simps) simp
  next
    case True
    let ?t = "nat totalSent" and ?r = "nat (msgLen - totalSent)"
    let ?w = "take ?r (drop ?t message)"
    have lw: "length ?w = ?r" using True len less.prems by simp
    then have "?w \<noteq> []" using True by auto
    then obtain k s1 where k: "send s ?w = (Sent k, s1)" "0 < k" "k \<le> length ?w"
      using prog unfolding makes_progress_def by blast
    have k_le: "k \<le> ?r" using k(3) lw by simp
    have step: "chatSend_loop send s message msgLen totalSent wire =
        chatSend_loop send s1 message msgLen (totalSent + int k) (wire @ take k (drop ?t message))"
      using True len k(1) by (subst chatSend_loop.simps) simp
    have "nat (msgLen - (totalSent + int k)) < ?r" using k(2) True by linarith
    moreover have "0 \<le> totalSent + int k" using less.prems by simp
    ultimately obtain s' where s': "chatSend_loop send s1 message msgLen (totalSent + int k)
        (wire @ take k (drop ?t message)) =
        Some (Inr ((wire @ take k (drop ?t message)) @
           take (nat (msgLen - (totalSent + int k))) (drop (nat (totalSent + int k)) message), s'))"
      using less.hyps by blast
    have r_split: "?r = k + nat (msgLen - (totalSent + int k))" using k_le True by linarith
    have d: "drop (nat (totalSent + int k)) message = drop k (drop ?t message)"
      using less.prems by (simp add: nat_add_distrib add.commute)
    have "take ?r (drop ?t message) =
        take k (drop ?t message) @ take (nat (msgLen - (totalSent + int k))) (drop k (drop ?t message))"
      by (subst r_split) (rule take_add)
    then show ?thesis using step s' d by simp
  qed
qed

lemma cstr_append_replicate: "NUL \<notin> set p \<Longrightarrow> 0 < k \<Longrightarrow> cstr (p @ replicate k NUL) = p"
  by (cases k) (simp_all add: cstr_append_NUL)

lemma makes_progress_send_upto: "0 < k \<Longrightarrow> makes_progress (send_upto k)"
  unfolding makes_progress_def send_upto_def
  by (auto simp: Suc_leI)

lemma printf_03d_three_digits: "n < 1000 \<Longrightarrow> printf_03d n = three_digits n"
  by (simp add: printf_03d_digits three_digits_def)

lemma main_send_frame:
  assumes prog: "makes_progress send" and t: "NUL \<in> set buffer"
  shows "\<exists>s'. main_send send s buffer = Some (Inr (cstr buffer @ [NUL], s'))"
proof -
  let ?n = "length (cstr buffer)"
  have n: "strlen_c buffer = Some ?n" using t by (simp add: strlen_c_def)
  have le: "int ?n + 1 \<le> int (length buffer)" using cstr_length_less [OF t] by simp
  obtain s' where "chatSend_loop send s buffer (int ?n + 1) 0 [] =
      Some (Inr ([] @ take (nat (int ?n + 1 - 0)) (drop (nat 0) buffer), s'))"
    using chatSend_loop_complete [OF prog le, of 0 s "[]"] by blast
  moreover have "take (?n + 1) buffer = cstr buffer @ [NUL]"
  proof -
    have "take (?n + 1) buffer = take (?n + 1) (cstr buffer @ NUL # drop (?n + 1) buffer)"
      using cstr_split [OF t] by simp
    then show ?thesis by simp
  qed
  moreover have "nat (int ?n + 1 - 0) = ?n + 1" by simp
  ultimately show ?thesis
    using n by (simp add: main_send_def chatSend_def)
qed

subsection \<open>Receiving from a scripted peer\<close>

lemma recv_script_avail:
  assumes "avail es \<noteq> []" and "0 < len"
  shows "\<exists>c es'. recv_script es len = (Recvd c, es') \<and> c \<noteq> [] \<and> length c \<le> len
           \<and> avail es = c @ avail es' \<and> closes es' = closes es"
proof (cases es)
  case Nil
  then show ?thesis using assms by simp
next
  case (Cons e rest)
  show ?thesis
  proof (cases e)
    case Failure
    then show ?thesis using assms Cons by simp
  next
    case (Segment bs)
    then have ne: "bs \<noteq> []" using assms Cons by auto
    show ?thesis
    proof (cases "length bs \<le> len")
      case True
      then show ?thesis using Cons Segment ne by simp
    next
      case False
      then have "drop len bs \<noteq> []" by simp
      moreover have "take len bs \<noteq> []" using ne assms(2) by (cases bs) auto
      ultimately show ?thesis using Cons Segment False by simp
    qed
  qed
qed


lemma cstr_padded: "cstr (c @ replicate k NUL) = cstr c"
proof (induction c)
  case Nil
  then show ?case by (cases k) (simp_all add: cstr_def)
next
  case (Cons x xs)
  then show ?case by (simp add: cstr_def)
qed


lemma cstr_id: "NUL \<notin> set a \<Longrightarrow> cstr a = a"
  unfolding cstr_def by (induction a) auto

lemma recv_store_chunk:
  assumes "length c < MAX_BYTES"
  shows "\<exists>b. recv_store (Recvd c) = Inr b \<and> cstr b = cstr c \<and> NUL \<in> set b"
proof -
  let ?b = "c @ replicate (MAX_BYTES - length c) NUL"
  have "recv_store (Recvd c) = Inr ?b" using assms by simp
  moreover have "cstr ?b = cstr c" by (rule cstr_padded)
  moreover have "NUL \<in> set ?b" using assms by simp
  ultimately show ?thesis by blast
qed

lemma cstr_take_padded:
  assumes "NUL \<notin> set q"
  shows "cstr (take j (q @ replicate k NUL)) = take j q"
proof -
  have "take j (q @ replicate k NUL) = take j q @ replicate (min (j - length q) k) NUL"
    by simp
  moreover have "NUL \<notin> set (take j q)" using assms by (meson in_set_takeD)
  ultimately show ?thesis by (simp add: cstr_padded cstr_id)
qed

lemma helper_loop_read:
  assumes "got < msgLen"
    and "r = nat (msgLen - got)"
    and "r \<le> length (avail es)"
    and "take r (avail es) = q @ replicate k NUL" and "NUL \<notin> set q"
    and "NUL \<in> set message"
    and "length (cstr message) + length q + 1 \<le> length message"
    and "r < MAX_BYTES"
  shows "\<exists>st message' es'.
           chatReceiveHelper_loop recv_script es message msgLen got st0 =
             Some (Inr (st, message', es'))
           \<and> 0 < st \<and> cstr message' = cstr message @ q \<and> length message' = length message
           \<and> NUL \<in> set message' \<and> avail es' = drop r (avail es) \<and> closes es' = closes es"
  using assms
proof (induction r arbitrary: got es q k message st0 rule: less_induct)
  case (less r)
  have rpos: "0 < r" using less.prems(1,2) by simp
  then have "avail es \<noteq> []" using less.prems(3) by auto
  then obtain c es1 where c: "recv_script es r = (Recvd c, es1)" "c \<noteq> []" "length c \<le> r"
      "avail es = c @ avail es1" "closes es1 = closes es"
    using recv_script_avail [OF _ rpos] by blast
  have c_take: "c = take (length c) (q @ replicate k NUL)"
  proof -
    have "c = take (length c) (avail es)" by (subst c(4)) simp
    also have "\<dots> = take (length c) (take r (avail es))"
      using c(3) by (simp add: min_absorb1)
    also have "\<dots> = take (length c) (q @ replicate k NUL)"
      by (simp only: less.prems(4))
    finally show ?thesis .
  qed
  have c_str: "cstr c = take (length c) q"
    using cstr_take_padded [OF less.prems(5), of "length c" k] c_take by simp
  obtain b where b: "recv_store (Recvd c) = Inr b" "cstr b = cstr c" "NUL \<in> set b"
    using recv_store_chunk [of c] c(3) less.prems(8) by auto
  have "length (cstr message) + length (cstr b) + 1 \<le> length message"
    using less.prems(7) b(2) c_str by simp
  then obtain m1 where m1: "strcat_c message b = Inr m1" "cstr m1 = cstr message @ cstr b"
      "length m1 = length message" "NUL \<in> set m1"
    using strcat_c_ok [OF less.prems(6) b(3)] by blast
  have step: "chatReceiveHelper_loop recv_script es message msgLen got st0 =
      chatReceiveHelper_loop recv_script es1 m1 msgLen (got + int (length c)) (Some (int (length c)))"
    using less.prems(1,2) c(1,2) b(1) m1(1)
    by (subst chatReceiveHelper_loop.simps) simp
  show ?case
  proof (cases "got + int (length c) < msgLen")
    case False
    then have eq: "length c = r" using c(3) less.prems(1,2) by linarith
    have "length q \<le> r"
    proof -
      have "length (take r (avail es)) = r" using less.prems(3) by simp
      then show ?thesis using less.prems(4) by (metis le_add1 length_append)
    qed
    then have "cstr c = q" using c_str eq by simp
    moreover have "chatReceiveHelper_loop recv_script es1 m1 msgLen (got + int (length c))
        (Some (int (length c))) = Some (Inr (int (length c), m1, es1))"
      using False by (subst chatReceiveHelper_loop.simps) simp
    moreover have "avail es1 = drop r (avail es)" using c(4) eq by simp
    ultimately show ?thesis using step m1 b(2) c(2,5) by simp
  next
    case True
    let ?r' = "r - length c"
    have r': "?r' < r" "?r' = nat (msgLen - (got + int (length c)))"
      using c(2,3) less.prems(2) True by auto
    have a1: "?r' \<le> length (avail es1)" using less.prems(3) c(4) by simp
    have a2: "take ?r' (avail es1) = drop (length c) q @ replicate (k - (length c - length q)) NUL"
    proof -
      have "take ?r' (avail es1) = drop (length c) (take r (avail es))"
        using c(3,4) by (simp add: drop_take)
      then show ?thesis using less.prems(4) by simp
    qed
    have a3: "NUL \<notin> set (drop (length c) q)" using less.prems(5) by (meson in_set_dropD)
    have a4: "length (cstr m1) + length (drop (length c) q) + 1 \<le> length m1"
      using m1 b(2) c_str less.prems(7) by simp
    have a5: "?r' < MAX_BYTES" using less.prems(8) by simp
    obtain st message' es' where res:
      "chatReceiveHelper_loop recv_script es1 m1 msgLen (got + int (length c))
          (Some (int (length c))) = Some (Inr (st, message', es'))"
      "0 < st" "cstr message' = cstr m1 @ drop (length c) q" "length message' = length m1"
      "NUL \<in> set message'" "avail es' = drop ?r' (avail es1)" "closes es' = closes es1"
      using less.IH [OF r'(1) True r'(2) a1 a2 a3 m1(4) a4 a5] by blast
    have "cstr message' = cstr message @ q"
      using res(3) m1(2) b(2) c_str by simp
    moreover have "avail es' = drop r (avail es)"
      using res(6) c(3,4) by simp
    ultimately show ?thesis using step res m1(3) c(5) by simp
  qed
qed


lemma cstr_prefix_long:
  assumes "NUL \<notin> set (take n a)" and "n \<le> length a"
  shows "n \<le> length (cstr a)"
proof -
  have "a = take n a @ drop n a" by simp
  then have "cstr a = takeWhile (\<lambda>c. c \<noteq> NUL) (take n a @ drop n a)"
    by (simp add: cstr_def)
  also have "\<dots> = take n a @ takeWhile (\<lambda>c. c \<noteq> NUL) (drop n a)"
    using assms(1) by (intro takeWhile_append2) auto
  finally have "length (cstr a) = length (take n a) + length (takeWhile (\<lambda>c. c \<noteq> NUL) (drop n a))"
    by simp
  then show ?thesis using assms(2) by simp
qed

lemma helper_loop_overrun:
  assumes "got < msgLen"
    and "r = nat (msgLen - got)"
    and "r \<le> length (avail es)"
    and "NUL \<in> set message"
    and "room = length message - length (cstr message)"
    and "room \<le> r"
    and "NUL \<notin> set (take room (avail es))"
  shows "\<exists>a. chatReceiveHelper_loop recv_script es message msgLen got st0 = Some (Inl a)
           \<and> a \<in> {RecvOverrun, StrOverrun, StrUnterminated}"
  using assms
proof (induction r arbitrary: got es message room st0 rule: less_induct)
  case (less r)
  have rpos: "0 < r" using less.prems(1,2) by simp
  then have "avail es \<noteq> []" using less.prems(3) by auto
  then obtain c es1 where c: "recv_script es r = (Recvd c, es1)" "c \<noteq> []" "length c \<le> r"
      "avail es = c @ avail es1" "closes es1 = closes es"
    using recv_script_avail [OF _ rpos] by blast
  have room_pos: "0 < room" using less.prems(4,5) cstr_length_less by simp
  have body: "chatReceiveHelper_loop recv_script es message msgLen got st0 =
      (case recv_store (Recvd c) of
         Inl a \<Rightarrow> Some (Inl a)
       | Inr buffer \<Rightarrow>
           (case strcat_c message buffer of
              Inl a \<Rightarrow> Some (Inl a)
            | Inr message' \<Rightarrow>
                chatReceiveHelper_loop recv_script es1 message' msgLen
                  (got + int (length c)) (Some (int (length c)))))"
    using less.prems(1,2) c(1,2)
    by (subst chatReceiveHelper_loop.simps) (simp split: sum.splits)
  show ?case
  proof (cases "MAX_BYTES < length c")
    case True
    then show ?thesis unfolding body by simp
  next
    case small: False
    let ?b = "c @ replicate (MAX_BYTES - length c) NUL"
    have st: "recv_store (Recvd c) = Inr ?b" using small by simp
    have dlen: "strlen_c message = Some (length (cstr message))"
      using less.prems(4) by (simp add: strlen_c_def)
    show ?thesis
    proof (cases "NUL \<in> set ?b")
      case False
      then have "strcat_c message ?b = Inl StrUnterminated"
        using dlen by (simp add: strcat_c_def strlen_c_def)
      then show ?thesis unfolding body st by simp
    next
      case tm: True
      have cb: "cstr ?b = cstr c" by (rule cstr_padded)
      show ?thesis
      proof (cases "room \<le> length c")
        case True
        have "take room c = take room (avail es)" using True by (subst c(4)) simp
        then have "NUL \<notin> set (take room c)" using less.prems(7) by simp
        then have "room \<le> length (cstr c)" using cstr_prefix_long True by blast
        then have "length message < length (cstr message) + length (cstr ?b) + 1"
          unfolding cb using less.prems(5) by linarith
        then have "strcat_c message ?b = Inl StrOverrun"
          using strcat_c_overrun [OF less.prems(4) tm] by simp
        then show ?thesis unfolding body st by simp
      next
        case False
        then have lc: "length c < room" by simp
        have "take room (avail es) = c @ take (room - length c) (avail es1)"
          using lc by (subst c(4)) simp
        then have nn: "NUL \<notin> set c" "NUL \<notin> set (take (room - length c) (avail es1))"
          using less.prems(7) by auto
        have cc: "cstr c = c" using nn(1) by (rule cstr_id)
        have "length (cstr message) + length (cstr ?b) + 1 \<le> length message"
          unfolding cb cc using lc less.prems(5) by linarith
        then obtain m1 where m1: "strcat_c message ?b = Inr m1" "cstr m1 = cstr message @ cstr ?b"
            "length m1 = length message" "NUL \<in> set m1"
          using strcat_c_ok [OF less.prems(4) tm] by blast
        let ?r' = "r - length c"
        have a0: "?r' < r" using c(2) rpos by simp
        have a1: "got + int (length c) < msgLen" using lc less.prems(2,6) by linarith
        have a2: "?r' = nat (msgLen - (got + int (length c)))" using less.prems(2) by linarith
        have a3: "?r' \<le> length (avail es1)" using less.prems(3) c(4) by simp
        have a4: "room - length c = length m1 - length (cstr m1)"
          using m1(2,3) cb cc less.prems(5) by simp
        have a5: "room - length c \<le> ?r'" using less.prems(6) by simp
        obtain a where "chatReceiveHelper_loop recv_script es1 m1 msgLen (got + int (length c))
            (Some (int (length c))) = Some (Inl a)" "a \<in> {RecvOverrun, StrOverrun, StrUnterminated}"
          using less.IH [OF a0 a1 a2 a3 m1(4) a4 a5 nn(2)] by blast
        then show ?thesis unfolding body st using m1(1) by simp
      qed
    qed
  qed
qed

lemma isdigit_c_val: "isdigit_c c \<Longrightarrow> 0 \<le> digit_val c \<and> digit_val c \<le> 9"
  unfolding isdigit_c_def digit_val_def by auto

lemma strtol_digits_bounds:
  "0 \<le> acc \<Longrightarrow> acc \<le> strtol_digits acc s \<and> strtol_digits acc s \<le> (acc + 1) * 10 ^ length s - 1"
proof (induction s arbitrary: acc)
  case Nil
  then show ?case by simp
next
  case (Cons c cs)
  show ?case
  proof (cases "isdigit_c c")
    case False
    have "(1::int) \<le> 10 ^ length (c # cs)" by (rule one_le_power) simp
    then have "(acc + 1) * 1 \<le> (acc + 1) * 10 ^ length (c # cs)"
      using Cons.prems by (intro mult_left_mono) auto
    then show ?thesis using False by simp
  next
    case True
    let ?a = "acc * 10 + digit_val c"
    have d: "0 \<le> digit_val c" "digit_val c \<le> 9" using isdigit_c_val [OF True] by auto
    have a: "0 \<le> ?a" using Cons.prems d by simp
    have ih: "?a \<le> strtol_digits ?a cs" "strtol_digits ?a cs \<le> (?a + 1) * 10 ^ length cs - 1"
      using Cons.IH [OF a] by auto
    have m: "(?a + 1) * 10 ^ length cs \<le> ((acc + 1) * 10) * 10 ^ length cs"
      using d by (intro mult_right_mono) auto
    have e: "(acc + 1) * 10 ^ length (c # cs) = ((acc + 1) * 10) * 10 ^ length cs" by simp
    have "strtol_digits ?a cs \<le> (acc + 1) * 10 ^ length (c # cs) - 1"
      unfolding e using ih(2) m by linarith
    moreover have "acc \<le> strtol_digits ?a cs" using ih(1) d Cons.prems by linarith
    ultimately show ?thesis using True by simp
  qed
qed

lemma strtol_digits_range:
  assumes "length s \<le> 3"
  shows "0 \<le> strtol_digits 0 s \<and> strtol_digits 0 s \<le> 999"
proof -
  have b: "0 \<le> strtol_digits 0 s" "strtol_digits 0 s \<le> 10 ^ length s - 1"
    using strtol_digits_bounds [of 0 s] by auto
  have "(10::int) ^ length s \<le> 10 ^ 3" using assms by (intro power_increasing) auto
  then show ?thesis using b by simp
qed

lemma clamp_long_small: "- 999 \<le> v \<Longrightarrow> v \<le> 999 \<Longrightarrow> clamp_long v = v"
  by (simp add: clamp_long_def)

lemma strtol_range:
  assumes "length s \<le> 3"
  shows "- 999 \<le> strtol s \<and> strtol s \<le> 999"
proof (cases "dropWhile isspace_c s")
  case Nil
  show ?thesis unfolding strtol_def Nil by simp
next
  case (Cons c r)
  have "length (dropWhile isspace_c s) \<le> length s" by (rule length_dropWhile_le)
  then have l: "length (c # r) \<le> 3" "length r \<le> 3" using assms Cons by auto
  have r: "0 \<le> strtol_digits 0 r" "strtol_digits 0 r \<le> 999"
    using strtol_digits_range [OF l(2)] by auto
  have cr: "0 \<le> strtol_digits 0 (c # r)" "strtol_digits 0 (c # r) \<le> 999"
    using strtol_digits_range [OF l(1)] by auto
  consider "c = CHR ''-''" | "c \<noteq> CHR ''-''" "c = CHR ''+''" | "c \<noteq> CHR ''-''" "c \<noteq> CHR ''+''"
    by blast
  then show ?thesis
  proof cases
    case 1
    then have "strtol s = clamp_long (- strtol_digits 0 r)" using Cons by (simp add: strtol_def)
    then show ?thesis using r clamp_long_small [of "- strtol_digits 0 r"] by simp
  next
    case 2
    then have "strtol s = clamp_long (strtol_digits 0 r)" using Cons by (simp add: strtol_def)
    then show ?thesis using r clamp_long_small [of "strtol_digits 0 r"] by simp
  next
    case 3
    then have "strtol s = clamp_long (strtol_digits 0 (c # r))"
      using Cons by (simp add: strtol_def)
    then show ?thesis using cr clamp_long_small [of "strtol_digits 0 (c # r)"] by simp
  qed
qed

lemma long_to_int_strtol: "length s \<le> 3 \<Longrightarrow> long_to_int (strtol s) = strtol s"
  using strtol_range [of s] by (intro long_to_int_id) auto

lemma cstr_zeros: "cstr (replicate k NUL) = []"
  using cstr_padded [of "[]" k] by (simp add: cstr_def)

lemma chatReceive_header:
  assumes "avail es = h @ rest" and "length h = 3" and "NUL \<notin> set h"
  shows "\<exists>st header es1.
           chatReceiveHelper recv_script es (replicate (PREFIX_OFFSET + 1) NUL) (int PREFIX_OFFSET)
             = Some (Inr (st, header, es1))
           \<and> 0 < st \<and> cstr header = h \<and> NUL \<in> set header
           \<and> avail es1 = rest \<and> closes es1 = closes es"
proof -
  let ?m = "replicate (PREFIX_OFFSET + 1) NUL"
  have a: "(0::int) < int PREFIX_OFFSET" "3 = nat (int PREFIX_OFFSET - 0)"
    by (simp_all add: PREFIX_OFFSET_def)
  have b: "3 \<le> length (avail es)" "take 3 (avail es) = h @ replicate 0 NUL"
    using assms(1,2) by simp_all
  have c: "NUL \<in> set ?m" "length (cstr ?m) + length h + 1 \<le> length ?m"
    using assms(2) by (simp_all add: cstr_zeros PREFIX_OFFSET_def)
  have d: "3 < MAX_BYTES" by (simp add: MAX_BYTES_def)
  obtain st header es1 where
    "chatReceiveHelper_loop recv_script es ?m (int PREFIX_OFFSET) 0 None = Some (Inr (st, header, es1))"
    "0 < st" "cstr header = cstr ?m @ h" "NUL \<in> set header"
    "avail es1 = drop 3 (avail es)" "closes es1 = closes es"
    using helper_loop_read [OF a b assms(3) c d, of None] by blast
  then show ?thesis
    unfolding chatReceiveHelper_def cstr_zeros using assms(1,2) by auto
qed

lemma chatReceive_body:
  assumes "avail es = h @ rest" and "length h = 3" and "NUL \<notin> set h"
  shows "\<exists>es1. avail es1 = rest \<and> closes es1 = closes es
           \<and> chatReceive recv_script es message =
               (case chatReceiveHelper recv_script es1 (replicate MAX_BYTES NUL) (strtol h) of
                  None \<Rightarrow> None
                | Some (Inl a) \<Rightarrow> Some (Inl a)
                | Some (Inr (status', body, sockfd'')) \<Rightarrow>
                    (case strcpy_c message body of
                       Inl a \<Rightarrow> Some (Inl a)
                     | Inr message' \<Rightarrow> Some (Inr (status', message', sockfd''))))"
proof -
  obtain st header es1 where hd:
    "chatReceiveHelper recv_script es (replicate (PREFIX_OFFSET + 1) NUL) (int PREFIX_OFFSET)
       = Some (Inr (st, header, es1))"
    "0 < st" "cstr header = h" "NUL \<in> set header" "avail es1 = rest" "closes es1 = closes es"
    using chatReceive_header [OF assms] by blast
  have "strlen_c header = Some 3" using hd(3,4) assms(2) by (simp add: strlen_c_def)
  moreover have "long_to_int (strtol h) = strtol h"
    using assms(2) by (intro long_to_int_strtol) simp
  ultimately have "chatReceive recv_script es message =
      (case chatReceiveHelper recv_script es1 (replicate MAX_BYTES NUL) (strtol h) of
         None \<Rightarrow> None
       | Some (Inl a) \<Rightarrow> Some (Inl a)
       | Some (Inr (status', body, sockfd'')) \<Rightarrow>
           (case strcpy_c message body of
              Inl a \<Rightarrow> Some (Inl a)
            | Inr message' \<Rightarrow> Some (Inr (status', message', sockfd''))))"
    using hd(1,2,3) by (simp add: chatReceive_def)
  then show ?thesis using hd(5,6) by blast
qed

lemma chatReceive_decodes:
  assumes "avail es = h @ rest" and "length h = 3" and "NUL \<notin> set h"
    and "strtol h = int n" and "0 < n" and "n < MAX_BYTES" and "n \<le> length rest"
    and "take n rest = q @ replicate k NUL" and "NUL \<notin> set q"
    and "length q + 1 \<le> length message"
  shows "\<exists>st message' es'. chatReceive recv_script es message = Some (Inr (st, message', es'))
           \<and> 0 < st \<and> cstr message' = q \<and> length message' = length message
           \<and> avail es' = drop n rest \<and> closes es' = closes es"
proof -
  let ?b = "replicate MAX_BYTES NUL"
  obtain es1 where es1: "avail es1 = rest" "closes es1 = closes es"
    "chatReceive recv_script es message =
       (case chatReceiveHelper recv_script es1 ?b (strtol h) of
          None \<Rightarrow> None
        | Some (Inl a) \<Rightarrow> Some (Inl a)
        | Some (Inr (status', body, sockfd'')) \<Rightarrow>
            (case strcpy_c message body of
               Inl a \<Rightarrow> Some (Inl a)
             | Inr message' \<Rightarrow> Some (Inr (status', message', sockfd''))))"
    using chatReceive_body [OF assms(1-3)] by blast
  have lq: "length q \<le> n"
  proof -
    have "length (take n rest) = n" using assms(7) by simp
    then show ?thesis using assms(8) by (metis le_add1 length_append)
  qed
  have a: "(0::int) < int n" "n = nat (int n - 0)" using assms(5) by simp_all
  have b: "n \<le> length (avail es1)" "take n (avail es1) = q @ replicate k NUL"
    using assms(7,8) es1(1) by simp_all
  have c: "NUL \<in> set ?b" "length (cstr ?b) + length q + 1 \<le> length ?b"
    using lq assms(6) by (simp_all add: cstr_zeros MAX_BYTES_def)
  obtain st body es' where body:
    "chatReceiveHelper_loop recv_script es1 ?b (int n) 0 None = Some (Inr (st, body, es'))"
    "0 < st" "cstr body = cstr ?b @ q" "NUL \<in> set body"
    "avail es' = drop n (avail es1)" "closes es' = closes es1"
    using helper_loop_read [OF a b assms(9) c assms(6), of None] by blast
  have "length (cstr body) + 1 \<le> length message"
    using body(3) assms(10) by (simp add: cstr_zeros)
  then obtain message' where m: "strcpy_c message body = Inr message'" "cstr message' = cstr body"
      "length message' = length message"
    using strcpy_c_ok [OF body(4)] by blast
  have "chatReceive recv_script es message = Some (Inr (st, message', es'))"
    using es1(3) body(1) m(1) assms(4) by (simp add: chatReceiveHelper_def)
  then show ?thesis using body m es1 by (simp add: cstr_zeros)
qed

lemma chatReceive_zero_first_read:
  assumes "recv sockfd PREFIX_OFFSET = (Recvd [], sockfd')"
  shows "chatReceive recv sockfd message = Some (Inr (0, message, sockfd'))"
proof -
  have "nat (int PREFIX_OFFSET - 0) = PREFIX_OFFSET" by simp
  then have "chatReceiveHelper recv sockfd (replicate (PREFIX_OFFSET + 1) NUL) (int PREFIX_OFFSET)
      = Some (Inr (0, replicate (PREFIX_OFFSET + 1) NUL, sockfd'))"
    unfolding chatReceiveHelper_def
    using assms by (subst chatReceiveHelper_loop.simps) (simp add: PREFIX_OFFSET_def MAX_BYTES_def)
  then show ?thesis by (simp add: chatReceive_def)
qed


lemma strtol_digits_short:
  "\<exists>c\<in>set s. \<not> isdigit_c c \<Longrightarrow> 0 \<le> acc \<Longrightarrow>
     strtol_digits acc s \<le> (acc + 1) * 10 ^ (length s - 1) - 1"
proof (induction s arbitrary: acc)
  case Nil
  then show ?case by simp
next
  case (Cons c cs)
  show ?case
  proof (cases "isdigit_c c")
    case False
    have "(1::int) \<le> 10 ^ length cs" by (rule one_le_power) simp
    then have "(acc + 1) * 1 \<le> (acc + 1) * 10 ^ length cs"
      using Cons.prems(2) by (intro mult_left_mono) auto
    then show ?thesis using False by simp
  next
    case True
    let ?a = "acc * 10 + digit_val c"
    have d: "0 \<le> digit_val c" "digit_val c \<le> 9" using isdigit_c_val [OF True] by auto
    have a: "0 \<le> ?a" using Cons.prems(2) d by simp
    have nd: "\<exists>c\<in>set cs. \<not> isdigit_c c" using Cons.prems(1) True by auto
    then have "cs \<noteq> []" by auto
    then have p: "(10::int) * 10 ^ (length cs - 1) = 10 ^ length cs"
      by (cases cs) simp_all
    have ih: "strtol_digits ?a cs \<le> (?a + 1) * 10 ^ (length cs - 1) - 1"
      using Cons.IH [OF nd a] .
    have "(?a + 1) * 10 ^ (length cs - 1) \<le> ((acc + 1) * 10) * 10 ^ (length cs - 1)"
      using d by (intro mult_right_mono) auto
    also have "\<dots> = (acc + 1) * (10 * 10 ^ (length cs - 1))" by (simp only: mult.assoc)
    also have "\<dots> = (acc + 1) * 10 ^ length cs" by (simp only: p)
    finally have "strtol_digits ?a cs \<le> (acc + 1) * 10 ^ length cs - 1" using ih by linarith
    then show ?thesis using True by simp
  qed
qed

lemma dropWhile_same_length: "length (dropWhile P xs) = length xs \<Longrightarrow> dropWhile P xs = xs"
proof -
  assume l: "length (dropWhile P xs) = length xs"
  have "length xs = length (takeWhile P xs) + length (dropWhile P xs)"
    by (metis length_append takeWhile_dropWhile_id)
  then have "takeWhile P xs = []" using l by simp
  then show ?thesis by (metis append_Nil takeWhile_dropWhile_id)
qed

lemma strtol_nondigit_le_99:
  assumes "length h = 3" and "\<exists>c\<in>set h. \<not> isdigit_c c"
  shows "strtol h \<le> 99"
proof (cases "dropWhile isspace_c h")
  case Nil
  show ?thesis unfolding strtol_def Nil by simp
next
  case (Cons x r)
  have le: "length (dropWhile isspace_c h) \<le> length h" by (rule length_dropWhile_le)
  then have lr: "length r \<le> 2" using assms(1) Cons by simp
  have r: "0 \<le> strtol_digits 0 r" "strtol_digits 0 r \<le> 10 ^ length r - 1"
    using strtol_digits_bounds [of 0 r] by auto
  have "(10::int) ^ length r \<le> 10 ^ 2" using lr by (intro power_increasing) auto
  then have r99: "strtol_digits 0 r \<le> 99" using r(2) by simp
  consider "x = CHR ''-''" | "x \<noteq> CHR ''-''" "x = CHR ''+''" | "x \<noteq> CHR ''-''" "x \<noteq> CHR ''+''"
    by blast
  then show ?thesis
  proof cases
    case 1
    then have "strtol h = clamp_long (- strtol_digits 0 r)" using Cons by (simp add: strtol_def)
    then show ?thesis using r(1) r99 clamp_long_small [of "- strtol_digits 0 r"] by simp
  next
    case 2
    then have "strtol h = clamp_long (strtol_digits 0 r)" using Cons by (simp add: strtol_def)
    then show ?thesis using r(1) r99 clamp_long_small [of "strtol_digits 0 r"] by simp
  next
    case 3
    then have v: "strtol h = clamp_long (strtol_digits 0 (x # r))"
      using Cons by (simp add: strtol_def)
    have lo: "0 \<le> strtol_digits 0 (x # r)" using strtol_digits_bounds [of 0 "x # r"] by simp
    have "strtol_digits 0 (x # r) \<le> 99"
    proof (cases "length (x # r) = 3")
      case True
      then have "dropWhile isspace_c h = h"
        using assms(1) Cons by (intro dropWhile_same_length) simp
      then have "\<exists>c\<in>set (x # r). \<not> isdigit_c c" using assms(2) Cons by simp
      then have "strtol_digits 0 (x # r) \<le> (0 + 1) * 10 ^ (length (x # r) - 1) - 1"
        by (intro strtol_digits_short) auto
      then show ?thesis using True by simp
    next
      case False
      then have l2: "length (x # r) \<le> 2" using le assms(1) Cons by simp
      have "strtol_digits 0 (x # r) \<le> 10 ^ length (x # r) - 1"
        using strtol_digits_bounds [of 0 "x # r"] by simp
      moreover have "(10::int) ^ length (x # r) \<le> 10 ^ 2"
        using l2 by (intro power_increasing) auto
      ultimately show ?thesis by simp
    qed
    then show ?thesis using v lo clamp_long_small [of "strtol_digits 0 (x # r)"] by simp
  qed
qed

lemma chatReceive_body_segment:
  assumes "length h = 3" and "NUL \<notin> set h"
  shows "chatReceive recv_script (Segment h # es1) message =
           (case chatReceiveHelper recv_script es1 (replicate MAX_BYTES NUL) (strtol h) of
              None \<Rightarrow> None
            | Some (Inl a) \<Rightarrow> Some (Inl a)
            | Some (Inr (status', body, sockfd'')) \<Rightarrow>
                (case strcpy_c message body of
                   Inl a \<Rightarrow> Some (Inl a)
                 | Inr message' \<Rightarrow> Some (Inr (status', message', sockfd''))))"
proof -
  let ?m = "replicate (PREFIX_OFFSET + 1) NUL"
  have r: "recv_script (Segment h # es1) (nat (int PREFIX_OFFSET - 0)) = (Recvd h, es1)"
    using assms(1) by (simp add: PREFIX_OFFSET_def)
  obtain b where b: "recv_store (Recvd h) = Inr b" "cstr b = cstr h" "NUL \<in> set b"
    using recv_store_chunk [of h] assms(1) by (auto simp: MAX_BYTES_def)
  have ch: "cstr h = h" using assms(2) by (rule cstr_id)
  have "length (cstr ?m) + length (cstr b) + 1 \<le> length ?m"
    unfolding b(2) ch cstr_zeros using assms(1) by (simp add: PREFIX_OFFSET_def)
  moreover have "NUL \<in> set ?m" by simp
  ultimately obtain header where header: "strcat_c ?m b = Inr header"
      "cstr header = cstr ?m @ cstr b" "NUL \<in> set header"
    using strcat_c_ok [OF _ b(3)] by blast
  have hs: "cstr header = h" using header(2) b(2) ch by (simp only: cstr_zeros append_Nil)
  have "chatReceiveHelper_loop recv_script (Segment h # es1) ?m (int PREFIX_OFFSET) 0 None =
      chatReceiveHelper_loop recv_script es1 header (int PREFIX_OFFSET) (0 + int (length h)) (Some (int (length h)))"
    using r b(1) header(1) assms(1)
    by (subst chatReceiveHelper_loop.simps) (simp add: PREFIX_OFFSET_def)
  also have "\<dots> = Some (Inr (int (length h), header, es1))"
    using assms(1) by (subst chatReceiveHelper_loop.simps) (simp add: PREFIX_OFFSET_def)
  finally have hd: "chatReceiveHelper recv_script (Segment h # es1) ?m (int PREFIX_OFFSET)
      = Some (Inr (3, header, es1))"
    using assms(1) by (simp add: chatReceiveHelper_def)
  have "strlen_c header = Some 3" using hs header(3) assms(1) by (simp add: strlen_c_def)
  moreover have "long_to_int (strtol h) = strtol h"
    using assms(1) by (intro long_to_int_strtol) simp
  ultimately show ?thesis using hd hs by (simp add: chatReceive_def)
qed

lemma helper_first_read_overrun:
  assumes "MAX_BYTES < m" and "MAX_BYTES < length body"
  shows "chatReceiveHelper recv_script (Segment body # es) message (int m) = Some (Inl RecvOverrun)"
proof -
  obtain c es' where c: "recv_script (Segment body # es) m = (Recvd c, es')" "MAX_BYTES < length c"
    using assms by (cases "length body \<le> m") auto
  then have "recv_store (Recvd c) = Inl RecvOverrun" by simp
  then show ?thesis
    unfolding chatReceiveHelper_def
    using c(1) assms(1) by (subst chatReceiveHelper_loop.simps) (simp add: MAX_BYTES_def)
qed

lemma sends_remainder_bytes_taken: "sends_remainder rem calls \<Longrightarrow> bytes_taken calls = rem"
proof (induction rem calls rule: sends_remainder.induct)
  case (1 rem)
  then show ?case by simp
next
  case (2 rem offered k calls)
  then have "bytes_taken calls = drop k rem" by simp
  then show ?case using 2 by simp
next
  case (3 rem offered calls)
  then show ?case by simp
qed

lemma chatSend_loop_traced:
  assumes prog: "makes_progress send"
    and len: "msgLen \<le> int (length message)"
    and pos: "0 \<le> totalSent"
  shows "\<exists>s' calls.
           chatSend_loop (send_traced send) (s, tr) message msgLen totalSent wire =
             Some (Inr (wire @ take (nat (msgLen - totalSent)) (drop (nat totalSent) message),
                        (s', tr @ calls)))
           \<and> sends_remainder (take (nat (msgLen - totalSent)) (drop (nat totalSent) message)) calls"
  using pos
proof (induction "nat (msgLen - totalSent)" arbitrary: totalSent s tr wire rule: less_induct)
  case less
  show ?case
  proof (cases "totalSent < msgLen")
    case False
    then have "chatSend_loop (send_traced send) (s, tr) message msgLen totalSent wire =
        Some (Inr (wire, (s, tr @ [])))"
      by (subst chatSend_loop.simps) simp
    then show ?thesis using False by (intro exI [of _ s] exI [of _ "[]"]) simp
  next
    case True
    let ?t = "nat totalSent" and ?r = "nat (msgLen - totalSent)"
    let ?w = "take ?r (drop ?t message)"
    have lw: "length ?w = ?r" using True len less.prems by simp
    then have ne: "?w \<noteq> []" using True by auto
    then obtain k s1 where k: "send s ?w = (Sent k, s1)" "0 < k" "k \<le> length ?w"
      using prog unfolding makes_progress_def by blast
    have k_le: "k \<le> ?r" using k(3) lw by simp
    have step: "chatSend_loop (send_traced send) (s, tr) message msgLen totalSent wire =
        chatSend_loop (send_traced send) (s1, tr @ [(?w, Sent k)]) message msgLen
          (totalSent + int k) (wire @ take k (drop ?t message))"
      using True len k(1) by (subst chatSend_loop.simps) (simp add: send_traced_def)
    let ?r' = "nat (msgLen - (totalSent + int k))"
    have "?r' < ?r" using k(2) True by linarith
    moreover have "0 \<le> totalSent + int k" using less.prems by simp
    ultimately obtain s' calls where s':
      "chatSend_loop (send_traced send) (s1, tr @ [(?w, Sent k)]) message msgLen
         (totalSent + int k) (wire @ take k (drop ?t message)) =
       Some (Inr ((wire @ take k (drop ?t message)) @
           take ?r' (drop (nat (totalSent + int k)) message), (s', (tr @ [(?w, Sent k)]) @ calls)))"
      "sends_remainder (take ?r' (drop (nat (totalSent + int k)) message)) calls"
      using less.hyps by blast
    have r_split: "?r = k + ?r'" using k_le True by linarith
    have d: "drop (nat (totalSent + int k)) message = drop k (drop ?t message)"
      using less.prems by (simp add: nat_add_distrib add.commute)
    have tk: "?w = take k (drop ?t message) @ take ?r' (drop k (drop ?t message))"
      by (subst r_split) (rule take_add)
    have dk: "drop k ?w = take ?r' (drop k (drop ?t message))"
      using r_split by (simp add: drop_take)
    have "sends_remainder ?w ((?w, Sent k) # calls)"
      using ne k(2,3) s'(2) unfolding d dk [symmetric] by simp
    moreover have "chatSend_loop (send_traced send) (s, tr) message msgLen totalSent wire =
        Some (Inr (wire @ ?w, (s', tr @ (?w, Sent k) # calls)))"
      using step s'(1) tk d by simp
    ultimately show ?thesis by blast
  qed
qed

subsection \<open>Reading and validating a line\<close>

lemma read_line_short:
  "NL \<notin> set line \<Longrightarrow> length line < k \<Longrightarrow> read_line k (line @ NL # rest) = (line @ [NL], rest)"
proof (induction line arbitrary: k)
  case Nil
  then show ?case by (cases k) simp_all
next
  case (Cons c cs)
  then obtain k' where k: "k = Suc k'" by (cases k) auto
  then show ?case using Cons by auto
qed

lemma read_line_long:
  "NL \<notin> set line \<Longrightarrow> k \<le> length line \<Longrightarrow> read_line k (line @ tail) = (take k line, drop k line @ tail)"
proof (induction k arbitrary: line)
  case 0
  then show ?case by simp
next
  case (Suc k)
  then obtain c cs where l: "line = c # cs" by (cases line) auto
  then show ?case using Suc by auto
qed

lemma skip_line_to_NL: "NL \<notin> set xs \<Longrightarrow> skip_line (xs @ NL # rest) = Some rest"
proof (induction xs)
  case Nil
  show ?case by (subst skip_line.simps) simp
next
  case (Cons c cs)
  then show ?case by (subst skip_line.simps) auto
qed

lemma cstr_cut_last:
  assumes "NUL \<in> set a" and "cstr a = s @ [c]"
  shows "cstr (a[length (cstr a) - 1 := NUL]) = s"
    and "NUL \<in> set (a[length (cstr a) - 1 := NUL])"
    and "length (a[length (cstr a) - 1 := NUL]) = length a"
proof -
  obtain t where a: "a = (s @ [c]) @ NUL # t"
    using cstr_split [OF assms(1)] assms(2) by metis
  have ns: "NUL \<notin> set s" using cstr_no_NUL [of a] assms(2) by simp
  have "a[length (cstr a) - 1 := NUL] = s @ NUL # NUL # t"
    unfolding assms(2) by (subst a) (simp add: list_update_append)
  then show "cstr (a[length (cstr a) - 1 := NUL]) = s"
    "NUL \<in> set (a[length (cstr a) - 1 := NUL])"
    using ns by (simp_all add: cstr_append_NUL)
  show "length (a[length (cstr a) - 1 := NUL]) = length a" by simp
qed

lemma cstr_nth_last:
  assumes "cstr a = s @ [c]"
  shows "a ! (length (cstr a) - 1) = c"
proof -
  have "a ! length s = take (length (cstr a)) a ! length s"
    unfolding assms by simp
  also have "\<dots> = cstr a ! length s" using cstr_take [of a] by simp
  finally show ?thesis unfolding assms by simp
qed

lemma sprintf_prompt_zeros:
  assumes "NUL \<in> set handle" and "length (cstr handle) + 3 \<le> n"
  shows "\<exists>m. sprintf_prompt (replicate n NUL) handle = Inr m
           \<and> cstr m = cstr handle @ ''> '' \<and> NUL \<in> set m \<and> length m = n"
proof -
  let ?m = "cstr handle @ ''> '' @ NUL # drop (length (cstr handle) + 3) (replicate n NUL)"
  have "sprintf_prompt (replicate n NUL) handle = Inr ?m"
    using assms by (simp add: sprintf_prompt_def strlen_c_def)
  moreover have "cstr ?m = cstr handle @ ''> ''"
    using cstr_append_NUL [of "cstr handle @ ''> ''"] cstr_no_NUL [of handle]
    by (simp add: NUL_def)
  moreover have "length ?m = n" using assms(2) by simp
  ultimately show ?thesis by auto
qed

lemma fgets_c_zeros:
  assumes "0 < n" and "input \<noteq> []" and "read_line (nat (n - 1)) input = (l, r)"
    and "NUL \<notin> set l" and "length l < k"
  shows "\<exists>b. fgets_c (replicate k NUL) n input = Inr (b, r)
           \<and> cstr b = l \<and> NUL \<in> set b \<and> length b = k"
proof -
  let ?b = "l @ NUL # drop (length l + 1) (replicate k NUL)"
  have "fgets_c (replicate k NUL) n input = Inr (?b, r)"
    using assms by (simp add: fgets_c_def)
  moreover have "cstr ?b = l" using assms(4) by (rule cstr_append_NUL)
  moreover have "length ?b = k" using assms(5) by simp
  ultimately show ?thesis by auto
qed

lemma memset0_c_all: "memset0_c m (int (length m)) = Inr (replicate (length m) NUL)"
  by (simp add: memset0_c_def)

lemma createValidatedMsg_any_msg:
  assumes "length m1 = length m2"
  shows "createValidatedMsg junk handle m1 (int (length m1)) input
       = createValidatedMsg junk handle m2 (int (length m1)) input"
proof -
  have "memset0_c m1 (int (length m1)) = memset0_c m2 (int (length m1))"
    using assms memset0_c_all [of m1] memset0_c_all [of m2] by simp
  then show ?thesis
    by (simp add: createValidatedMsg.simps [of junk handle m1]
        createValidatedMsg.simps [of junk handle m2])
qed

lemma read_line_length: "length (fst (read_line k input)) \<le> k"
proof (induction k input rule: read_line.induct)
  case (1 input)
  then show ?case by simp
next
  case (2 k)
  then show ?case by simp
next
  case (3 k c cs)
  then show ?case by (cases "read_line k cs") auto
qed

lemma createValidatedMsg_reads:
  assumes h: "NUL \<in> set handle" "length (cstr handle) \<le> 10"
    and m: "1000 \<le> length msg"
    and i: "input \<noteq> []" "read_line (997 - length (cstr handle)) input = (l, r)" "NUL \<notin> set l"
  shows "\<exists>msg3 b.
           NUL \<in> set msg3 \<and> length msg3 = length msg \<and> cstr msg3 = cstr handle @ ''> '' @ l
           \<and> NUL \<in> set b \<and> cstr b = l
           \<and> createValidatedMsg junk handle msg (int (length msg)) input =
               Option.bind
                 (if NL \<in> set (cstr msg3)
                  then Some (msg3[length (cstr msg3) - 1 := NUL], r)
                  else map_option (Pair msg3) (skip_line r))
                 (\<lambda>(msg4, input2).
                    (case strlen_c b of
                       None \<Rightarrow> Some (Inl StrUnterminated)
                     | Some bufferLen \<Rightarrow>
                         let buffer2 =
                               (if 0 < bufferLen \<and> b ! (bufferLen - 1) = NL
                                then b[bufferLen - 1 := NUL] else b)
                         in if cstr buffer2 = quit_command then Some (Inr (0, msg4, input2))
                            else
                              (case validateMsg (Some buffer2) of
                                 Inl a \<Rightarrow> Some (Inl a)
                               | Inr valid \<Rightarrow>
                                   if valid = 0
                                   then createValidatedMsg junk handle msg4 (int (length msg)) input2
                                   else
                                     (case prependByteCountMsg junk msg4 (int (length (cstr buffer2))) of
                                        Inl a \<Rightarrow> Some (Inl a)
                                      | Inr msg5 \<Rightarrow> Some (Inr (1, msg5, input2))))))"
proof -
  let ?hl = "length (cstr handle)"
  obtain msg2 where msg2: "sprintf_prompt (replicate (length msg) NUL) handle = Inr msg2"
      "cstr msg2 = cstr handle @ ''> ''" "NUL \<in> set msg2" "length msg2 = length msg"
    using sprintf_prompt_zeros [OF h(1), of "length msg"] h(2) m by auto
  have pl: "strlen_c msg2 = Some (?hl + 2)" using msg2(2,3) by (simp add: strlen_c_def)
  have ll: "length l \<le> 997 - ?hl" using read_line_length [of "997 - ?hl" input] i(2) by simp
  have n: "nat (int (MAX_MSG * 2) - int (?hl + 2) - 1) = 997 - ?hl"
      "0 < int (MAX_MSG * 2) - int (?hl + 2)"
    using h(2) by (simp_all add: MAX_MSG_def)
  have rl: "read_line (nat (int (MAX_MSG * 2) - int (?hl + 2) - 1)) input = (l, r)"
    unfolding n(1) by (rule i(2))
  have "length l < MAX_MSG * 2" using ll by (simp add: MAX_MSG_def)
  then obtain b where b: "fgets_c (replicate (MAX_MSG * 2) NUL) (int (MAX_MSG * 2) - int (?hl + 2)) input
        = Inr (b, r)" "cstr b = l" "NUL \<in> set b"
    using fgets_c_zeros [OF n(2) i(1) rl i(3)] by blast
  have "length (cstr msg2) + length (cstr b) + 1 \<le> length msg2"
    unfolding msg2(2,4) b(2) using ll m h(2) by simp
  then obtain msg3 where msg3: "strcat_c msg2 b = Inr msg3" "cstr msg3 = cstr msg2 @ cstr b"
      "length msg3 = length msg2" "NUL \<in> set msg3"
    using strcat_c_ok [OF msg2(3) b(3)] by blast
  have c3: "cstr msg3 = cstr handle @ ''> '' @ l" using msg3(2) msg2(2) b(2) by simp
  have l3: "length msg3 = length msg" using msg3(3) msg2(4) by simp
  have eq: "createValidatedMsg junk handle msg (int (length msg)) input =
      Option.bind
        (if NL \<in> set (cstr msg3)
         then Some (msg3[length (cstr msg3) - 1 := NUL], r)
         else map_option (Pair msg3) (skip_line r))
        (\<lambda>(msg4, input2).
           (case strlen_c b of
              None \<Rightarrow> Some (Inl StrUnterminated)
            | Some bufferLen \<Rightarrow>
                let buffer2 =
                      (if 0 < bufferLen \<and> b ! (bufferLen - 1) = NL
                       then b[bufferLen - 1 := NUL] else b)
                in if cstr buffer2 = quit_command then Some (Inr (0, msg4, input2))
                   else
                     (case validateMsg (Some buffer2) of
                        Inl a \<Rightarrow> Some (Inl a)
                      | Inr valid \<Rightarrow>
                          if valid = 0
                          then createValidatedMsg junk handle msg4 (int (length msg)) input2
                          else
                            (case prependByteCountMsg junk msg4 (int (length (cstr buffer2))) of
                               Inl a \<Rightarrow> Some (Inl a)
                             | Inr msg5 \<Rightarrow> Some (Inr (1, msg5, input2))))))"
    by (subst createValidatedMsg.simps)
      (simp only: memset0_c_all msg2(1) pl b(1) msg3(1) sum.case option.case prod.case)
  show ?thesis
    by (intro exI [of _ msg3] exI [of _ b] conjI msg3(4) l3 c3 b(3) b(2) eq)
qed

lemma validateMsg_length:
  "NUL \<in> set a \<Longrightarrow> validateMsg (Some a) = Inr (if length (cstr a) \<le> MAX_MSG then 1 else 0)"
  by (simp add: validateMsg_def strlen_c_def)

lemma createValidatedMsg_line:
  assumes h: "NUL \<in> set handle" "length (cstr handle) \<le> 10"
    and m: "1000 \<le> length msg"
    and l: "NUL \<notin> set line" "NL \<notin> set line" "length line < 997 - length (cstr handle)"
  shows "\<exists>msg4. NUL \<in> set msg4 \<and> length msg4 = length msg
           \<and> cstr msg4 = cstr handle @ ''> '' @ line
           \<and> createValidatedMsg junk handle msg (int (length msg)) (line @ NL # rest) =
               (if line = quit_command then Some (Inr (0, msg4, rest))
                else if length line \<le> MAX_MSG
                then (case prependByteCountMsg junk msg4 (int (length line)) of
                        Inl a \<Rightarrow> Some (Inl a)
                      | Inr msg5 \<Rightarrow> Some (Inr (1, msg5, rest)))
                else createValidatedMsg junk handle msg4 (int (length msg)) rest)"
proof -
  have rl: "read_line (997 - length (cstr handle)) (line @ NL # rest) = (line @ [NL], rest)"
    using l(2,3) by (rule read_line_short)
  have nn: "NUL \<notin> set (line @ [NL])" using l(1) by (simp add: NL_def NUL_def)
  obtain msg3 b where r: "NUL \<in> set msg3" "length msg3 = length msg"
    "cstr msg3 = cstr handle @ ''> '' @ line @ [NL]" "NUL \<in> set b" "cstr b = line @ [NL]"
    "createValidatedMsg junk handle msg (int (length msg)) (line @ NL # rest) =
       Option.bind
         (if NL \<in> set (cstr msg3)
          then Some (msg3[length (cstr msg3) - 1 := NUL], rest)
          else map_option (Pair msg3) (skip_line rest))
         (\<lambda>(msg4, input2).
            (case strlen_c b of
               None \<Rightarrow> Some (Inl StrUnterminated)
             | Some bufferLen \<Rightarrow>
                 let buffer2 =
                       (if 0 < bufferLen \<and> b ! (bufferLen - 1) = NL
                        then b[bufferLen - 1 := NUL] else b)
                 in if cstr buffer2 = quit_command then Some (Inr (0, msg4, input2))
                    else
                      (case validateMsg (Some buffer2) of
                         Inl a \<Rightarrow> Some (Inl a)
                       | Inr valid \<Rightarrow>
                           if valid = 0
                           then createValidatedMsg junk handle msg4 (int (length msg)) input2
                           else
                             (case prependByteCountMsg junk msg4 (int (length (cstr buffer2))) of
                                Inl a \<Rightarrow> Some (Inl a)
                              | Inr msg5 \<Rightarrow> Some (Inr (1, msg5, input2))))))"
    using createValidatedMsg_reads [OF h m _ rl nn, of junk] by auto
  let ?msg4 = "msg3[length (cstr msg3) - 1 := NUL]"
  let ?b2 = "b[length (cstr b) - 1 := NUL]"
  have c3: "cstr msg3 = (cstr handle @ ''> '' @ line) @ [NL]" using r(3) by simp
  have m4: "cstr ?msg4 = cstr handle @ ''> '' @ line" "NUL \<in> set ?msg4" "length ?msg4 = length msg"
    using cstr_cut_last [OF r(1) c3] r(2) by simp_all
  have b2: "cstr ?b2 = line" "NUL \<in> set ?b2"
    using cstr_cut_last [OF r(4) r(5)] by simp_all
  have nl3: "NL \<in> set (cstr msg3)" unfolding r(3) by simp
  have sb: "strlen_c b = Some (length (cstr b))" using r(4) by (simp add: strlen_c_def)
  have last: "0 < length (cstr b) \<and> b ! (length (cstr b) - 1) = NL"
    using cstr_nth_last [OF r(5)] r(5) by simp
  have v: "validateMsg (Some ?b2) = Inr (if length line \<le> MAX_MSG then 1 else 0)"
    using validateMsg_length [OF b2(2)] b2(1) by simp
  have "createValidatedMsg junk handle msg (int (length msg)) (line @ NL # rest) =
      (if line = quit_command then Some (Inr (0, ?msg4, rest))
       else if length line \<le> MAX_MSG
       then (case prependByteCountMsg junk ?msg4 (int (length line)) of
               Inl a \<Rightarrow> Some (Inl a)
             | Inr msg5 \<Rightarrow> Some (Inr (1, msg5, rest)))
       else createValidatedMsg junk handle ?msg4 (int (length msg)) rest)"
    unfolding r(6) using nl3 sb last v b2(1) by (simp add: Let_def)
  then show ?thesis using m4 by blast
qed

lemma createValidatedMsg_long_line:
  assumes h: "NUL \<in> set handle" "length (cstr handle) \<le> 10" "NL \<notin> set (cstr handle)"
    and m: "1000 \<le> length msg"
    and l: "NUL \<notin> set line" "NL \<notin> set line" "997 - length (cstr handle) \<le> length line"
  shows "\<exists>msg4. length msg4 = length msg
           \<and> createValidatedMsg junk handle msg (int (length msg)) (line @ NL # rest) =
               createValidatedMsg junk handle msg4 (int (length msg)) rest"
proof -
  let ?k = "997 - length (cstr handle)"
  let ?l = "take ?k line"
  have k: "987 \<le> ?k" using h(2) by simp
  have rl: "read_line ?k (line @ NL # rest) = (?l, drop ?k line @ NL # rest)"
    using l(2,3) by (rule read_line_long)
  have nn: "NUL \<notin> set ?l" using l(1) by (meson in_set_takeD)
  have nl: "NL \<notin> set ?l" using l(2) by (meson in_set_takeD)
  have ll: "length ?l = ?k" using l(3) by simp
  obtain msg3 b where r: "NUL \<in> set msg3" "length msg3 = length msg"
    "cstr msg3 = cstr handle @ ''> '' @ ?l" "NUL \<in> set b" "cstr b = ?l"
    "createValidatedMsg junk handle msg (int (length msg)) (line @ NL # rest) =
       Option.bind
         (if NL \<in> set (cstr msg3)
          then Some (msg3[length (cstr msg3) - 1 := NUL], drop ?k line @ NL # rest)
          else map_option (Pair msg3) (skip_line (drop ?k line @ NL # rest)))
         (\<lambda>(msg4, input2).
            (case strlen_c b of
               None \<Rightarrow> Some (Inl StrUnterminated)
             | Some bufferLen \<Rightarrow>
                 let buffer2 =
                       (if 0 < bufferLen \<and> b ! (bufferLen - 1) = NL
                        then b[bufferLen - 1 := NUL] else b)
                 in if cstr buffer2 = quit_command then Some (Inr (0, msg4, input2))
                    else
                      (case validateMsg (Some buffer2) of
                         Inl a \<Rightarrow> Some (Inl a)
                       | Inr valid \<Rightarrow>
                           if valid = 0
                           then createValidatedMsg junk handle msg4 (int (length msg)) input2
                           else
                             (case prependByteCountMsg junk msg4 (int (length (cstr buffer2))) of
                                Inl a \<Rightarrow> Some (Inl a)
                              | Inr msg5 \<Rightarrow> Some (Inr (1, msg5, input2))))))"
    using createValidatedMsg_reads [OF h(1,2) m _ rl nn, of junk] by auto
  have nl3: "NL \<notin> set (cstr msg3)" unfolding r(3) using h(3) nl by (simp add: NL_def)
  have sk: "skip_line (drop ?k line @ NL # rest) = Some rest"
    using l(2) by (intro skip_line_to_NL) (meson in_set_dropD)
  have sb: "strlen_c b = Some (length (cstr b))" using r(4) by (simp add: strlen_c_def)
  have ne: "?l \<noteq> []" using ll k by auto
  then have "cstr b = butlast ?l @ [last ?l]" using r(5) by simp
  then have "b ! (length (cstr b) - 1) = last ?l" by (rule cstr_nth_last)
  moreover have "last ?l \<in> set ?l" using ne by simp
  ultimately have last: "b ! (length (cstr b) - 1) \<noteq> NL" using nl by metis
  have nq: "cstr b \<noteq> quit_command"
  proof
    assume "cstr b = quit_command"
    then have "length (cstr b) = 5" by (simp add: quit_command_def)
    then show False using r(5) ll k by simp
  qed
  have v: "validateMsg (Some b) = Inr 0"
    using validateMsg_length [OF r(4)] r(5) ll k by (simp add: MAX_MSG_def)
  have "createValidatedMsg junk handle msg (int (length msg)) (line @ NL # rest) =
      createValidatedMsg junk handle msg3 (int (length msg)) rest"
    unfolding r(6) using nl3 sk sb last nq v by (simp add: Let_def)
  then show ?thesis using r(2) by blast
qed

section \<open>The claims\<close>

subsection \<open>C1: round trip\<close>

text \<open>
  C1, as the code has it. For every message string of at most 512 bytes (with the three
  digits and the NUL that is what the 516-byte arrays hold), the frame that
  \<^verbatim>\<open>_prependByteCountMsg\<close> builds and \<^verbatim>\<open>main\<close> sends through a \<^verbatim>\<open>send\<close> that makes
  progress is decoded by \<^verbatim>\<open>chatReceive\<close> to the same string, however the stream delivers
  the bytes of the frame: the status is positive, the caller's array holds the string
  unchanged, and the bytes after the frame are left in the stream.
\<close>

theorem round_trip:
  assumes "NUL \<in> set msg" and "length buffer = MAX_BYTES"
    and "length (cstr msg) + 4 \<le> MAX_BYTES" and "length (cstr msg) + 4 \<le> length msg"
    and "0 \<le> msgLen" and "nat msgLen \<le> length msg"
    and "makes_progress send"
    and "length (cstr msg) + 1 \<le> length message"
  shows "\<exists>framed wire s'.
           prependByteCountMsg buffer msg msgLen = Inr framed
           \<and> main_send send s framed = Some (Inr (wire, s'))
           \<and> (\<forall>es more. avail es = wire @ more \<longrightarrow>
                (\<exists>st message' es'.
                   chatReceive recv_script es message = Some (Inr (st, message', es'))
                   \<and> 0 < st \<and> cstr message' = cstr msg \<and> avail es' = more))"
proof -
  let ?p = "cstr msg"
  let ?n = "length ?p + 1"
  let ?h = "printf_03d ?n"
  obtain framed where f: "prependByteCountMsg buffer msg msgLen = Inr framed"
      "cstr framed = ?h @ ?p" "NUL \<in> set framed"
    using prependByteCountMsg_ok [OF assms(1-6)] by blast
  obtain s' where w: "main_send send s framed = Some (Inr (cstr framed @ [NUL], s'))"
    using main_send_frame [OF assms(7) f(3)] by blast
  have small: "?n < 1000" "?n < MAX_BYTES" using assms(3) by (simp_all add: MAX_BYTES_def)
  have h: "length ?h = 3" "NUL \<notin> set ?h" "strtol ?h = int ?n"
    using printf_03d_length [OF small(1)] printf_03d_no_NUL strtol_printf_03d [OF small(1)]
    by auto
  have p: "NUL \<notin> set ?p" by (rule cstr_no_NUL)
  have "\<exists>st message' es'. chatReceive recv_script es message = Some (Inr (st, message', es'))
          \<and> 0 < st \<and> cstr message' = ?p \<and> avail es' = more"
    if av: "avail es = (cstr framed @ [NUL]) @ more" for es more
  proof -
    let ?rest = "?p @ [NUL] @ more"
    have a: "avail es = ?h @ ?rest" using av f(2) by simp
    have b: "0 < ?n" "?n \<le> length ?rest" "take ?n ?rest = ?p @ replicate 1 NUL" by simp_all
    obtain st message' es' where
      "chatReceive recv_script es message = Some (Inr (st, message', es'))" "0 < st"
      "cstr message' = ?p" "avail es' = drop ?n ?rest"
      using chatReceive_decodes [OF a h(1,2,3) b(1) small(2) b(2,3) p assms(8)] by blast
    then show ?thesis by simp
  qed
  then show ?thesis using f(1) w by blast
qed

text \<open>
  An instance of C1: \<^verbatim>\<open>bob> hi\<close> is framed, sent one byte per call, delivered in three
  segments that cut through header and body, and read back.
\<close>

theorem round_trip_witness:
  "NUL \<in> set (''bob> hi'' @ replicate 9 NUL) \<and> length (replicate 516 NUL) = MAX_BYTES
   \<and> length (cstr (''bob> hi'' @ replicate 9 NUL)) + 4 \<le> MAX_BYTES
   \<and> length (cstr (''bob> hi'' @ replicate 9 NUL)) + 4 \<le> length (''bob> hi'' @ replicate 9 NUL)
   \<and> (0::int) \<le> 2 \<and> nat 2 \<le> length (''bob> hi'' @ replicate 9 NUL)
   \<and> makes_progress (send_upto 1)
   \<and> length (cstr (''bob> hi'' @ replicate 9 NUL)) + 1 \<le> length (replicate 16 (CHR ''?''))
   \<and> main_send (send_upto 1) 0 (''008bob> hi'' @ replicate 6 NUL) = Some (Inr (''008bob> hi'' @ [NUL], 11))
   \<and> avail [Segment ''00'', Segment ''8bob> '', Segment (''hi'' @ [NUL])] = (''008bob> hi'' @ [NUL]) @ []
   \<and> (\<exists>st message' es'.
         chatReceive recv_script [Segment ''00'', Segment ''8bob> '', Segment (''hi'' @ [NUL])]
           (replicate 16 (CHR ''?'')) = Some (Inr (st, message', es'))
         \<and> 0 < st \<and> cstr message' = ''bob> hi'' \<and> avail es' = [])"
proof -
  let ?msg = "''bob> hi'' @ replicate 9 NUL"
  let ?es = "[Segment ''00'', Segment ''8bob> '', Segment (''hi'' @ [NUL])]"
  have c: "cstr ?msg = ''bob> hi''"
    by (rule cstr_append_replicate) (simp_all add: NUL_def)
  have h: "NUL \<in> set ?msg" "length (replicate 516 NUL) = MAX_BYTES"
    "length (cstr ?msg) + 4 \<le> MAX_BYTES" "length (cstr ?msg) + 4 \<le> length ?msg"
    "(0::int) \<le> 2" "nat 2 \<le> length ?msg" "makes_progress (send_upto 1)"
    "length (cstr ?msg) + 1 \<le> length (replicate 16 (CHR ''?''))"
    unfolding c by (simp_all add: MAX_BYTES_def makes_progress_send_upto)
  have f: "prependByteCountMsg (replicate 516 NUL) ?msg 2 = Inr (''008bob> hi'' @ replicate 6 NUL)"
    by code_simp
  have w: "main_send (send_upto 1) 0 (''008bob> hi'' @ replicate 6 NUL)
      = Some (Inr (''008bob> hi'' @ [NUL], 11))"
    by code_simp
  have av: "avail ?es = (''008bob> hi'' @ [NUL]) @ []" by (simp add: NUL_def)
  obtain framed wire s' where r: "prependByteCountMsg (replicate 516 NUL) ?msg 2 = Inr framed"
    "main_send (send_upto 1) 0 framed = Some (Inr (wire, s'))"
    "\<forall>es more. avail es = wire @ more \<longrightarrow>
        (\<exists>st message' es'.
           chatReceive recv_script es (replicate 16 (CHR ''?'')) = Some (Inr (st, message', es'))
           \<and> 0 < st \<and> cstr message' = cstr ?msg \<and> avail es' = more)"
    using round_trip [OF h, of 0] by blast
  have "framed = ''008bob> hi'' @ replicate 6 NUL" using r(1) f by simp
  then have "wire = ''008bob> hi'' @ [NUL]" using r(2) w by simp
  then have "\<exists>st message' es'.
      chatReceive recv_script ?es (replicate 16 (CHR ''?'')) = Some (Inr (st, message', es'))
      \<and> 0 < st \<and> cstr message' = cstr ?msg \<and> avail es' = []"
    using r(3) av by blast
  then show ?thesis using h w av unfolding c by blast
qed

text \<open>
  Counterexample to C1 as stated: for a payload of 999 bytes \<^verbatim>\<open>_prependByteCountMsg\<close>
  runs past its 516-byte array; and the frame such a payload would have, with the count
  1000 in front, is read by \<^verbatim>\<open>chatReceive\<close> as a body of 100 bytes that starts with the
  fourth digit of the count.
\<close>

theorem round_trip_fails_at_999:
  "prependByteCountMsg (replicate 516 NUL) (replicate 999 (CHR ''a'') @ [NUL]) 999 = Inl StrOverrun
   \<and> returned_string (chatReceive recv_script
        [Segment (''1000'' @ replicate 999 (CHR ''a'') @ [NUL])] (replicate 1032 NUL))
       = Some (''0'' @ replicate 99 (CHR ''a''))"
proof
  let ?msg = "replicate 999 (CHR ''a'') @ [NUL]"
  have c: "cstr ?msg = replicate 999 (CHR ''a'')"
    by (rule cstr_append_NUL) (simp add: NUL_def)
  show "prependByteCountMsg (replicate 516 NUL) ?msg 999 = Inl StrOverrun"
    by (rule prependByteCountMsg_overrun) (simp_all add: c MAX_BYTES_def)
next
  let ?rest = "''0'' @ replicate 999 (CHR ''a'') @ [NUL]"
  let ?es = "[Segment (''1000'' @ replicate 999 (CHR ''a'') @ [NUL])]"
  have a: "avail ?es = ''100'' @ ?rest" by simp
  have h: "length ''100'' = 3" "NUL \<notin> set ''100''" "strtol ''100'' = int 100" "(0::nat) < 100"
    "100 < MAX_BYTES" "100 \<le> length ?rest"
    by (simp_all add: NUL_def MAX_BYTES_def strtol_def isspace_c_def isdigit_c_def digit_val_def
        clamp_long_def)
  have t: "take 100 ?rest = (''0'' @ replicate 99 (CHR ''a'')) @ replicate 0 NUL"
    by (simp add: take_Cons')
  have q: "NUL \<notin> set (''0'' @ replicate 99 (CHR ''a''))" by (simp add: NUL_def)
  have fit: "length (''0'' @ replicate 99 (CHR ''a'')) + 1 \<le> length (replicate 1032 NUL)" by simp
  obtain st message' es' where
    "chatReceive recv_script ?es (replicate 1032 NUL) = Some (Inr (st, message', es'))"
    "cstr message' = ''0'' @ replicate 99 (CHR ''a'')"
    using chatReceive_decodes [OF a h t q fit] by blast
  then show "returned_string (chatReceive recv_script ?es (replicate 1032 NUL))
      = Some (''0'' @ replicate 99 (CHR ''a''))"
    by simp
qed

subsection \<open>C2: the header\<close>

text \<open>
  C2, as the code has it. For every message string of at most 512 bytes, the array
  \<^verbatim>\<open>_prependByteCountMsg\<close> leaves and \<^verbatim>\<open>main\<close> sends is the three decimal digits
  of the length of the string plus one, the string, and the NUL that ends it: the count
  of the header includes that NUL, and the frame on the wire has
  \<open>3 + length + 1\<close> bytes.
\<close>

theorem header_counts_terminator:
  assumes "NUL \<in> set msg" and "length buffer = MAX_BYTES"
    and "length (cstr msg) + 4 \<le> MAX_BYTES" and "length (cstr msg) + 4 \<le> length msg"
    and "0 \<le> msgLen" and "nat msgLen \<le> length msg"
    and "makes_progress send"
  shows "\<exists>framed s'. prependByteCountMsg buffer msg msgLen = Inr framed
           \<and> main_send send s framed =
               Some (Inr (three_digits (length (cstr msg) + 1) @ cstr msg @ [NUL], s'))
           \<and> length (three_digits (length (cstr msg) + 1) @ cstr msg @ [NUL]) =
               3 + length (cstr msg) + 1"
proof -
  obtain framed where f: "prependByteCountMsg buffer msg msgLen = Inr framed"
      "cstr framed = printf_03d (length (cstr msg) + 1) @ cstr msg" "NUL \<in> set framed"
    using prependByteCountMsg_ok [OF assms(1-6)] by blast
  have "length (cstr msg) + 1 < 1000" using assms(3) by (simp add: MAX_BYTES_def)
  then have h: "printf_03d (length (cstr msg) + 1) = three_digits (length (cstr msg) + 1)"
    by (rule printf_03d_three_digits)
  obtain s' where "main_send send s framed = Some (Inr (cstr framed @ [NUL], s'))"
    using main_send_frame [OF assms(7) f(3)] by blast
  then show ?thesis using f h by (simp add: three_digits_def)
qed

text \<open>
  An instance of C2: the message \<^verbatim>\<open>bob> hi\<close>, seven bytes, is sent as \<^verbatim>\<open>008bob> hi\<close>
  and a NUL.
\<close>

theorem header_counts_terminator_witness:
  "NUL \<in> set (''bob> hi'' @ replicate 9 NUL) \<and> length (replicate 516 NUL) = MAX_BYTES
   \<and> length (cstr (''bob> hi'' @ replicate 9 NUL)) + 4 \<le> MAX_BYTES
   \<and> length (cstr (''bob> hi'' @ replicate 9 NUL)) + 4 \<le> length (''bob> hi'' @ replicate 9 NUL)
   \<and> (0::int) \<le> 2 \<and> nat 2 \<le> length (''bob> hi'' @ replicate 9 NUL)
   \<and> makes_progress (send_upto 1)
   \<and> (\<exists>framed s'. prependByteCountMsg (replicate 516 NUL) (''bob> hi'' @ replicate 9 NUL) 2 = Inr framed
        \<and> main_send (send_upto 1) 0 framed = Some (Inr (''008bob> hi'' @ [NUL], s')))"
proof -
  let ?msg = "''bob> hi'' @ replicate 9 NUL"
  have c: "cstr ?msg = ''bob> hi''"
    by (rule cstr_append_replicate) (simp_all add: NUL_def)
  have h1: "NUL \<in> set ?msg" by simp
  have h2: "length (replicate 516 NUL) = MAX_BYTES" by (simp add: MAX_BYTES_def)
  have h3: "length (cstr ?msg) + 4 \<le> MAX_BYTES" unfolding c by (simp add: MAX_BYTES_def)
  have h4: "length (cstr ?msg) + 4 \<le> length ?msg" unfolding c by simp
  have h5: "(0::int) \<le> 2" "nat 2 \<le> length ?msg" by simp_all
  have h6: "makes_progress (send_upto 1)" by (rule makes_progress_send_upto) simp
  have d: "three_digits (length ''bob> hi'' + 1) = ''008''"
    by (simp add: three_digits_def digit_char_def)
  show ?thesis
    using header_counts_terminator [OF h1 h2 h3 h4 h5 h6, of 0] h1 h2 h3 h4 h5 h6
    unfolding c d by auto
qed

text \<open>
  Counterexample to C2 as stated: for the seven-byte message \<^verbatim>\<open>bob> hi\<close> the header is
  \<^verbatim>\<open>008\<close>, not \<^verbatim>\<open>007\<close>, and eleven bytes are sent, not ten: the last is a NUL.
\<close>

theorem header_is_not_payload_length:
  "prependByteCountMsg (replicate 516 NUL) (''bob> hi'' @ replicate 9 NUL) 2
     = Inr (''008bob> hi'' @ replicate 6 NUL)
   \<and> main_send (send_upto 1) 0 (''008bob> hi'' @ replicate 6 NUL)
     = Some (Inr (''008bob> hi'' @ [NUL], 11))"
  by code_simp

subsection \<open>C3: a header that is not a number\<close>

text \<open>
  C3, as the code has it. \<^verbatim>\<open>chatReceive\<close> has no check of the header: it takes what
  \<^verbatim>\<open>strtol\<close> makes of it. For every header of three bytes with a byte that is not a
  digit, whose leading number as \<^verbatim>\<open>strtol\<close> reads it is \<open>n > 0\<close>,
  \<^verbatim>\<open>chatReceive\<close> reads a body of \<open>n\<close> bytes and returns it with a positive status.
\<close>

theorem nondigit_header_read_by_strtol:
  assumes "avail es = h @ rest" and "length h = 3" and "NUL \<notin> set h"
    and "\<exists>c\<in>set h. \<not> isdigit_c c"
    and "strtol h = int n" and "0 < n"
    and "n \<le> length rest" and "NUL \<notin> set (take n rest)"
    and "n + 1 \<le> length message"
  shows "\<exists>st message' es'. chatReceive recv_script es message = Some (Inr (st, message', es'))
           \<and> 0 < st \<and> cstr message' = take n rest \<and> avail es' = drop n rest"
proof -
  have "int n \<le> 99" using strtol_nondigit_le_99 [OF assms(2,4)] assms(5) by simp
  then have small: "n < MAX_BYTES" by (simp add: MAX_BYTES_def)
  have q: "take n rest = take n rest @ replicate 0 NUL" by simp
  have fit: "length (take n rest) + 1 \<le> length message" using assms(7,9) by simp
  obtain st message' es' where
    "chatReceive recv_script es message = Some (Inr (st, message', es'))" "0 < st"
    "cstr message' = take n rest" "avail es' = drop n rest"
    using chatReceive_decodes [OF assms(1,2,3,5,6) small assms(7) q assms(8) fit] by blast
  then show ?thesis by blast
qed

text \<open>
  An instance of C3: the header \<^verbatim>\<open>1a2\<close> followed by the byte \<^verbatim>\<open>x\<close>.
\<close>

theorem nondigit_header_read_by_strtol_witness:
  "avail [Segment ''1a2x''] = ''1a2'' @ ''x'' \<and> length ''1a2'' = 3 \<and> NUL \<notin> set ''1a2''
   \<and> (\<exists>c\<in>set ''1a2''. \<not> isdigit_c c) \<and> strtol ''1a2'' = int 1 \<and> (0::nat) < 1
   \<and> 1 \<le> length ''x'' \<and> NUL \<notin> set (take 1 ''x'') \<and> 1 + 1 \<le> length (replicate 516 NUL)
   \<and> (\<exists>st message' es'.
         chatReceive recv_script [Segment ''1a2x''] (replicate 516 NUL) = Some (Inr (st, message', es'))
         \<and> 0 < st \<and> cstr message' = ''x'')"
proof -
  have h: "avail [Segment ''1a2x''] = ''1a2'' @ ''x''" "length ''1a2'' = 3" "NUL \<notin> set ''1a2''"
    "\<exists>c\<in>set ''1a2''. \<not> isdigit_c c" "strtol ''1a2'' = int 1" "(0::nat) < 1"
    "1 \<le> length ''x''" "NUL \<notin> set (take 1 ''x'')" "1 + 1 \<le> length (replicate 516 NUL)"
    by (simp_all add: NUL_def strtol_def isspace_c_def isdigit_c_def digit_val_def clamp_long_def)
  show ?thesis
    using nondigit_header_read_by_strtol [OF h] h by auto
qed

text \<open>
  Counterexample to C3 as stated: the header \<^verbatim>\<open>1a2\<close> is taken as the length 1, one
  byte of body is read, and the call succeeds with status 1.
\<close>

theorem nondigit_header_accepted:
  "chatReceive recv_script [Segment ''1a2x''] (replicate 8 NUL)
     = Some (Inr (1, ''x'' @ replicate 7 NUL, []))"
  by code_simp

subsection \<open>C4: the peer closes in the middle of a message\<close>




subsection \<open>C5: the peer closes between two messages\<close>

text \<open>
  C5. Whenever the first \<^verbatim>\<open>recv\<close> for the header returns zero bytes, \<^verbatim>\<open>chatReceive\<close>
  returns the status 0; the caller's array is untouched and the socket is in the state
  that first \<^verbatim>\<open>recv\<close> left it in, so nothing of a body has been read.
\<close>

theorem clean_closure_returns_zero:
  assumes "recv sockfd PREFIX_OFFSET = (Recvd [], sockfd')"
  shows "chatReceive recv sockfd message = Some (Inr (0, message, sockfd'))"
  using assms by (rule chatReceive_zero_first_read)

text \<open>
  An instance of C5: a read of zero bytes with a whole frame behind it; the frame stays in the
  stream.
\<close>

theorem clean_closure_returns_zero_witness:
  "recv_script [Segment [], Segment ''005hello''] PREFIX_OFFSET = (Recvd [], [Segment ''005hello''])
   \<and> chatReceive recv_script [Segment [], Segment ''005hello''] ''old''
       = Some (Inr (0, ''old'', [Segment ''005hello'']))"
  using clean_closure_returns_zero
    [of recv_script "[Segment [], Segment ''005hello'']" "[Segment ''005hello'']" "''old''"]
  by simp

subsection \<open>C6: the largest message\<close>

text \<open>
  C6, as the code has it. The bound on the length is the caller's: \<^verbatim>\<open>createValidatedMsg\<close>
  frames a line only after \<^verbatim>\<open>_validateMsg\<close> has accepted it. For a handle of at most
  10 characters and a typed line without NUL: a line of at most \<open>MAX_MSG = 500\<close>
  characters, other than \<^verbatim>\<open>\quit\<close>, is framed, the message \<^verbatim>\<open>handle> line\<close> with the
  three digits of its length plus one in front; a longer line is dropped without being
  framed, and the function goes on with the input after it as if the line had never been
  typed.
\<close>

theorem overlong_line_never_encoded:
  assumes "NUL \<in> set handle" and "length (cstr handle) \<le> 10" and "NL \<notin> set (cstr handle)"
    and "1000 \<le> length msg" and "length junk = MAX_BYTES"
    and "NUL \<notin> set line" and "NL \<notin> set line"
  shows "(length line \<le> MAX_MSG \<and> line \<noteq> quit_command \<longrightarrow>
            (\<exists>framed.
               createValidatedMsg junk handle msg (int (length msg)) (line @ NL # rest)
                 = Some (Inr (1, framed, rest))
               \<and> cstr framed =
                   three_digits (length (cstr handle @ ''> '' @ line) + 1)
                     @ cstr handle @ ''> '' @ line))
         \<and> (MAX_MSG < length line \<longrightarrow>
              createValidatedMsg junk handle msg (int (length msg)) (line @ NL # rest)
                = createValidatedMsg junk handle msg (int (length msg)) rest)"
proof (intro conjI impI)
  assume a: "length line \<le> MAX_MSG \<and> line \<noteq> quit_command"
  then have short: "length line < 997 - length (cstr handle)"
    using assms(2) by (auto simp: MAX_MSG_def)
  obtain msg4 where m4: "NUL \<in> set msg4" "length msg4 = length msg"
    "cstr msg4 = cstr handle @ ''> '' @ line"
    "createValidatedMsg junk handle msg (int (length msg)) (line @ NL # rest) =
       (if line = quit_command then Some (Inr (0, msg4, rest))
        else if length line \<le> MAX_MSG
        then (case prependByteCountMsg junk msg4 (int (length line)) of
                Inl a \<Rightarrow> Some (Inl a)
              | Inr msg5 \<Rightarrow> Some (Inr (1, msg5, rest)))
        else createValidatedMsg junk handle msg4 (int (length msg)) rest)"
    using createValidatedMsg_line [OF assms(1,2,4,6,7) short, of junk rest] by blast
  have fit: "length (cstr msg4) + 4 \<le> MAX_BYTES" "length (cstr msg4) + 4 \<le> length msg4"
    "(0::int) \<le> int (length line)" "nat (int (length line)) \<le> length msg4"
    unfolding m4(2,3) using a assms(2,4) by (simp_all add: MAX_MSG_def MAX_BYTES_def)
  obtain framed where f: "prependByteCountMsg junk msg4 (int (length line)) = Inr framed"
    "cstr framed = printf_03d (length (cstr msg4) + 1) @ cstr msg4"
    using prependByteCountMsg_ok [OF m4(1) assms(5) fit] by blast
  have "length (cstr msg4) + 1 < 1000" using fit(1) by (simp add: MAX_BYTES_def)
  then have "printf_03d (length (cstr msg4) + 1) = three_digits (length (cstr msg4) + 1)"
    by (rule printf_03d_three_digits)
  then have "cstr framed =
      three_digits (length (cstr handle @ ''> '' @ line) + 1) @ cstr handle @ ''> '' @ line"
    using f(2) m4(3) by simp
  moreover have "createValidatedMsg junk handle msg (int (length msg)) (line @ NL # rest)
      = Some (Inr (1, framed, rest))"
    using m4(4) a f(1) by simp
  ultimately show "\<exists>framed.
      createValidatedMsg junk handle msg (int (length msg)) (line @ NL # rest)
        = Some (Inr (1, framed, rest))
      \<and> cstr framed =
          three_digits (length (cstr handle @ ''> '' @ line) + 1) @ cstr handle @ ''> '' @ line"
    by blast
next
  assume long: "MAX_MSG < length line"
  have "\<exists>msg4. length msg4 = length msg
      \<and> createValidatedMsg junk handle msg (int (length msg)) (line @ NL # rest) =
          createValidatedMsg junk handle msg4 (int (length msg)) rest"
  proof (cases "length line < 997 - length (cstr handle)")
    case True
    obtain msg4 where m4: "length msg4 = length msg"
      "createValidatedMsg junk handle msg (int (length msg)) (line @ NL # rest) =
         (if line = quit_command then Some (Inr (0, msg4, rest))
          else if length line \<le> MAX_MSG
          then (case prependByteCountMsg junk msg4 (int (length line)) of
                  Inl a \<Rightarrow> Some (Inl a)
                | Inr msg5 \<Rightarrow> Some (Inr (1, msg5, rest)))
          else createValidatedMsg junk handle msg4 (int (length msg)) rest)"
      using createValidatedMsg_line [OF assms(1,2,4,6,7) True, of junk rest] by blast
    have "line \<noteq> quit_command"
    proof
      assume "line = quit_command"
      then have "length line = 5" by (simp add: quit_command_def)
      then show False using long by (simp add: MAX_MSG_def)
    qed
    then show ?thesis using m4 long by auto
  next
    case False
    then have "997 - length (cstr handle) \<le> length line" by simp
    then show ?thesis
      using createValidatedMsg_long_line [OF assms(1,2,3,4,6,7), of junk rest] by blast
  qed
  then obtain msg4 where m4: "length msg4 = length msg"
    "createValidatedMsg junk handle msg (int (length msg)) (line @ NL # rest) =
       createValidatedMsg junk handle msg4 (int (length msg)) rest"
    by blast
  have "createValidatedMsg junk handle msg4 (int (length msg4)) rest
      = createValidatedMsg junk handle msg (int (length msg4)) rest"
    using m4(1) by (rule createValidatedMsg_any_msg)
  then show "createValidatedMsg junk handle msg (int (length msg)) (line @ NL # rest)
      = createValidatedMsg junk handle msg (int (length msg)) rest"
    using m4 by simp
qed

text \<open>
  An instance of C6: behind the handle \<^verbatim>\<open>bob\<close> the line \<^verbatim>\<open>hi\<close> is framed as
  \<^verbatim>\<open>008bob> hi\<close>; a line of 501 letters followed by \<^verbatim>\<open>hi\<close> gives what \<^verbatim>\<open>hi\<close> alone
  gives.
\<close>

theorem overlong_line_never_encoded_witness:
  "NUL \<in> set (''bob'' @ [NUL]) \<and> length (cstr (''bob'' @ [NUL])) \<le> 10
   \<and> NL \<notin> set (cstr (''bob'' @ [NUL]))
   \<and> 1000 \<le> length (replicate 1032 NUL) \<and> length (replicate 516 NUL) = MAX_BYTES
   \<and> NUL \<notin> set ''hi'' \<and> NL \<notin> set ''hi''
   \<and> length ''hi'' \<le> MAX_MSG \<and> ''hi'' \<noteq> quit_command
   \<and> (\<exists>framed.
         createValidatedMsg (replicate 516 NUL) (''bob'' @ [NUL]) (replicate 1032 NUL)
           (int (length (replicate 1032 NUL))) (''hi'' @ NL # ''next'')
           = Some (Inr (1, framed, ''next''))
         \<and> cstr framed = ''008bob> hi'')
   \<and> NUL \<notin> set (replicate 501 (CHR ''a'')) \<and> NL \<notin> set (replicate 501 (CHR ''a''))
   \<and> MAX_MSG < length (replicate 501 (CHR ''a''))
   \<and> createValidatedMsg (replicate 516 NUL) (''bob'' @ [NUL]) (replicate 1032 NUL)
         (int (length (replicate 1032 NUL))) (replicate 501 (CHR ''a'') @ NL # ''hi'' @ [NL])
       = createValidatedMsg (replicate 516 NUL) (''bob'' @ [NUL]) (replicate 1032 NUL)
         (int (length (replicate 1032 NUL))) (''hi'' @ [NL])"
proof -
  let ?h = "''bob'' @ [NUL]"
  have c: "cstr ?h = ''bob''" by (rule cstr_append_NUL) (simp add: NUL_def)
  have h: "NUL \<in> set ?h" "length (cstr ?h) \<le> 10" "NL \<notin> set (cstr ?h)"
    "1000 \<le> length (replicate 1032 NUL)" "length (replicate 516 NUL) = MAX_BYTES"
    unfolding c by (simp_all add: NL_def MAX_BYTES_def)
  have l1: "NUL \<notin> set ''hi''" "NL \<notin> set ''hi''" by (simp_all add: NL_def NUL_def)
  have a1: "length ''hi'' \<le> MAX_MSG \<and> ''hi'' \<noteq> quit_command"
    by (simp add: MAX_MSG_def quit_command_def)
  have l2: "NUL \<notin> set (replicate 501 (CHR ''a''))" "NL \<notin> set (replicate 501 (CHR ''a''))"
    by (simp_all add: NL_def NUL_def)
  have a2: "MAX_MSG < length (replicate 501 (CHR ''a''))" by (simp add: MAX_MSG_def)
  have d: "three_digits (length (''bob'' @ ''> '' @ ''hi'') + 1) @ ''bob'' @ ''> '' @ ''hi''
      = ''008bob> hi''"
    by (simp add: three_digits_def digit_char_def)
  have i1: "\<exists>framed.
      createValidatedMsg (replicate 516 NUL) ?h (replicate 1032 NUL)
        (int (length (replicate 1032 NUL))) (''hi'' @ NL # ''next'')
        = Some (Inr (1, framed, ''next''))
      \<and> cstr framed = ''008bob> hi''"
    using overlong_line_never_encoded [OF h l1, of "''next''"] a1 unfolding c d by blast
  have i2: "createValidatedMsg (replicate 516 NUL) ?h (replicate 1032 NUL)
        (int (length (replicate 1032 NUL))) (replicate 501 (CHR ''a'') @ NL # ''hi'' @ [NL])
      = createValidatedMsg (replicate 516 NUL) ?h (replicate 1032 NUL)
        (int (length (replicate 1032 NUL))) (''hi'' @ [NL])"
    using overlong_line_never_encoded [OF h l2, of "''hi'' @ [NL]"] a2 by blast
  show ?thesis
    using h l1 a1 l2 a2 i1 i2 by (intro conjI) (simp_all only: simp_thms)
qed

text \<open>
  Counterexample to C6 as stated: for a payload of 999 bytes the count printed is
  \<^verbatim>\<open>1000\<close>, four digits, and \<^verbatim>\<open>_prependByteCountMsg\<close> runs past its 516-byte array
  instead of succeeding with the header \<^verbatim>\<open>999\<close>.
\<close>

theorem no_frame_too_large_check:
  "printf_03d (length (replicate 999 (CHR ''a'')) + 1) = ''1000''
   \<and> prependByteCountMsg (replicate 516 NUL) (replicate 999 (CHR ''a'') @ replicate 33 NUL) 999
       = Inl StrOverrun"
proof
  show "printf_03d (length (replicate 999 (CHR ''a'')) + 1) = ''1000''"
    by code_simp
next
  let ?msg = "replicate 999 (CHR ''a'') @ replicate 33 NUL"
  have c: "cstr ?msg = replicate 999 (CHR ''a'')"
    by (rule cstr_append_replicate) (simp_all add: NUL_def)
  show "prependByteCountMsg (replicate 516 NUL) ?msg 999 = Inl StrOverrun"
    by (rule prependByteCountMsg_overrun) (simp_all add: c MAX_BYTES_def)
qed

subsection \<open>C7: sending survives partial writes\<close>

text \<open>
  C7. For every array \<open>message\<close> of at least \<open>n\<close> bytes and every \<^verbatim>\<open>send\<close> that
  takes at least one byte, but possibly fewer bytes than it is offered, per call,
  \<^verbatim>\<open>chatSend\<close> returns, and the record the socket has kept of the calls shows that
  every call was offered exactly the unsent remainder of the first \<open>n\<close> bytes, until
  none was left: the bytes the socket has taken are the first \<open>n\<close> bytes of
  \<open>message\<close>, in order.
\<close>

theorem chatSend_transmits_all:
  assumes "makes_progress send" and "n \<le> length message"
  shows "\<exists>s' calls.
           chatSend (send_traced send) (s, tr) message (int n)
             = Some (Inr (take n message, (s', tr @ calls)))
           \<and> sends_remainder (take n message) calls
           \<and> bytes_taken calls = take n message"
proof -
  have "int n \<le> int (length message)" using assms(2) by simp
  then obtain s' calls where r:
    "chatSend_loop (send_traced send) (s, tr) message (int n) 0 [] =
       Some (Inr ([] @ take (nat (int n - 0)) (drop (nat 0) message), (s', tr @ calls)))"
    "sends_remainder (take (nat (int n - 0)) (drop (nat 0) message)) calls"
    using chatSend_loop_traced [OF assms(1), of "int n" message 0 s tr "[]"] by blast
  then have "sends_remainder (take n message) calls" by simp
  then show ?thesis
    using r(1) sends_remainder_bytes_taken [of "take n message" calls]
    by (auto simp: chatSend_def)
qed

text \<open>
  An instance of C7: five bytes through a \<^verbatim>\<open>send\<close> that takes one byte per call; the
  socket sees five calls.
\<close>

theorem chatSend_transmits_all_witness:
  "makes_progress (send_upto 1) \<and> 5 \<le> length ''hello''
   \<and> (\<exists>s' calls.
         chatSend (send_traced (send_upto 1)) (0, []) ''hello'' (int 5)
           = Some (Inr (take 5 ''hello'', (s', [] @ calls)))
         \<and> sends_remainder (take 5 ''hello'') calls
         \<and> bytes_taken calls = take 5 ''hello'')
   \<and> chatSend (send_traced (send_upto 1)) (0, []) ''hello'' 5
       = Some (Inr (''hello'',
           (5, [(''hello'', Sent 1), (''ello'', Sent 1), (''llo'', Sent 1), (''lo'', Sent 1),
                (''o'', Sent 1)])))"
proof -
  have p: "makes_progress (send_upto 1)" by (rule makes_progress_send_upto) simp
  have l: "5 \<le> length ''hello''" by simp
  have e: "chatSend (send_traced (send_upto 1)) (0, []) ''hello'' 5
       = Some (Inr (''hello'',
           (5, [(''hello'', Sent 1), (''ello'', Sent 1), (''llo'', Sent 1), (''lo'', Sent 1),
                (''o'', Sent 1)])))"
    by code_simp
  show ?thesis
    using chatSend_transmits_all [OF p l, of 0 "[]"] p l e by blast
qed

subsection \<open>C8: receiving survives partial reads\<close>

text \<open>
  C8, as the code has it. For every count \<open>n\<close> with \<open>0 < n < 516\<close> and every stream
  that delivers at least \<open>n\<close> bytes, in reads of any sizes, of which the first \<open>n\<close>
  hold no NUL, \<^verbatim>\<open>_chatReceiveHelper\<close> appends exactly these \<open>n\<close> bytes, in the order of
  arrival, to the string in \<open>message\<close>, provided the array has room for them and the
  final NUL; it returns the positive status of its last read and leaves the rest of the
  stream unread.
\<close>

theorem helper_appends_string:
  assumes "0 < n" and "n < MAX_BYTES"
    and "n \<le> length (avail es)" and "NUL \<notin> set (take n (avail es))"
    and "NUL \<in> set message" and "length (cstr message) + n + 1 \<le> length message"
  shows "\<exists>st message' es'.
           chatReceiveHelper recv_script es message (int n) = Some (Inr (st, message', es'))
           \<and> 0 < st \<and> cstr message' = cstr message @ take n (avail es)
           \<and> avail es' = drop n (avail es)"
proof -
  have a: "(0::int) < int n" "n = nat (int n - 0)" using assms(1) by simp_all
  have b: "take n (avail es) = take n (avail es) @ replicate 0 NUL" by simp
  have c: "length (cstr message) + length (take n (avail es)) + 1 \<le> length message"
    using assms(3,6) by simp
  obtain st message' es' where
    "chatReceiveHelper_loop recv_script es message (int n) 0 None = Some (Inr (st, message', es'))"
    "0 < st" "cstr message' = cstr message @ take n (avail es)" "avail es' = drop n (avail es)"
    using helper_loop_read [OF a assms(3) b assms(4,5) c assms(2), of None] by blast
  then show ?thesis unfolding chatReceiveHelper_def by blast
qed

text \<open>
  An instance of C8: ten bytes that arrive two at a time.
\<close>

theorem helper_appends_string_witness:
  "(0::nat) < 10 \<and> 10 < MAX_BYTES
   \<and> 10 \<le> length (avail (map Segment [''ab'', ''cd'', ''ef'', ''gh'', ''ij'']))
   \<and> NUL \<notin> set (take 10 (avail (map Segment [''ab'', ''cd'', ''ef'', ''gh'', ''ij''])))
   \<and> NUL \<in> set (replicate 11 NUL) \<and> length (cstr (replicate 11 NUL)) + 10 + 1 \<le> length (replicate 11 NUL)
   \<and> (\<exists>st message' es'.
         chatReceiveHelper recv_script (map Segment [''ab'', ''cd'', ''ef'', ''gh'', ''ij''])
           (replicate 11 NUL) (int 10) = Some (Inr (st, message', es'))
         \<and> 0 < st \<and> cstr message' = ''abcdefghij'')"
proof -
  let ?es = "map Segment [''ab'', ''cd'', ''ef'', ''gh'', ''ij'']"
  have av: "avail ?es = ''abcdefghij''" by simp
  have h: "(0::nat) < 10" "10 < MAX_BYTES" "10 \<le> length (avail ?es)"
    "NUL \<notin> set (take 10 (avail ?es))" "NUL \<in> set (replicate 11 NUL)"
    "length (cstr (replicate 11 NUL)) + 10 + 1 \<le> length (replicate 11 NUL)"
    unfolding av by (simp_all add: MAX_BYTES_def NUL_def cstr_zeros [unfolded NUL_def])
  show ?thesis
    using helper_appends_string [OF h] h unfolding av cstr_zeros by auto
qed

text \<open>
  Counterexample to C8 as stated: of the three bytes \<^verbatim>\<open>a\<close>, NUL, \<^verbatim>\<open>b\<close> only the
  first reaches \<open>message\<close>, because the scratch array is appended with \<^verbatim>\<open>strcat\<close>.
\<close>

theorem helper_cuts_at_NUL:
  "chatReceiveHelper recv_script [Segment [CHR ''a'', NUL, CHR ''b'']] (replicate 4 NUL) 3
     = Some (Inr (3, [CHR ''a'', NUL, NUL, NUL], []))"
  by code_simp

subsection \<open>C9: a failing read\<close>

text \<open>
  C9 does not hold of the code. \<^verbatim>\<open>_chatReceiveHelper\<close> compares the status of
  \<^verbatim>\<open>recv\<close> with 0 only. When the first \<^verbatim>\<open>recv\<close> of a read of four bytes fails with
  -1, the loop goes on with \<open>bytesReceived = -1\<close>, asks for five bytes, and returns the
  five bytes that arrive next with the status 5. So does \<^verbatim>\<open>chatReceive\<close> when the
  failure comes between the header \<^verbatim>\<open>004\<close> and the body: it delivers five bytes for
  a frame of four.
\<close>

theorem helper_continues_after_failure:
  "chatReceiveHelper recv_script [Failure, Segment ''abcde''] (replicate MAX_BYTES NUL) 4
     = Some (Inr (5, ''abcde'' @ replicate 511 NUL, []))
   \<and> chatReceive recv_script [Segment ''004'', Failure, Segment ''abcde''] (replicate 516 NUL)
     = Some (Inr (5, ''abcde'' @ replicate 511 NUL, []))"
  by code_simp

subsection \<open>C10: a body longer than the arrays\<close>

text \<open>
  C10, as the code has it. For every header that announces \<open>m > 516\<close> bytes, followed by
  at least \<open>m\<close> bytes of body of which the first 516 hold no NUL, \<^verbatim>\<open>chatReceive\<close>
  runs past the end of one of its 516-byte arrays however the body is cut into reads:
  \<^verbatim>\<open>recv\<close> writes past the scratch array, or \<^verbatim>\<open>strcat\<close> writes past \<^verbatim>\<open>body\<close>, or
  \<^verbatim>\<open>strcat\<close> reads past a scratch array filled to its last byte. When the body arrives
  in one segment after the header, it is the scratch array that \<^verbatim>\<open>recv\<close> overruns.
\<close>

theorem long_body_overruns_arrays:
  assumes "length h = 3" and "NUL \<notin> set h"
    and "strtol h = int m" and "MAX_BYTES < m"
    and "m \<le> length body" and "NUL \<notin> set (take MAX_BYTES body)"
  shows "(\<forall>es. avail es = h @ body \<longrightarrow>
            (\<exists>a. chatReceive recv_script es message = Some (Inl a)
                 \<and> a \<in> {RecvOverrun, StrOverrun, StrUnterminated}))
         \<and> (\<forall>es. chatReceive recv_script (Segment h # Segment body # es) message
                 = Some (Inl RecvOverrun))"
proof (intro conjI allI impI)
  fix es
  assume av: "avail es = h @ body"
  let ?b = "replicate MAX_BYTES NUL"
  obtain es1 where es1: "avail es1 = body"
    "chatReceive recv_script es message =
       (case chatReceiveHelper recv_script es1 ?b (strtol h) of
          None \<Rightarrow> None
        | Some (Inl a) \<Rightarrow> Some (Inl a)
        | Some (Inr (status', body, sockfd'')) \<Rightarrow>
            (case strcpy_c message body of
               Inl a \<Rightarrow> Some (Inl a)
             | Inr message' \<Rightarrow> Some (Inr (status', message', sockfd''))))"
    using chatReceive_body [OF av assms(1,2)] by blast
  have a: "(0::int) < int m" "m = nat (int m - 0)" using assms(4) by simp_all
  have b: "m \<le> length (avail es1)" "NUL \<in> set ?b" using assms(5) es1(1) by (simp_all add: MAX_BYTES_def)
  have c: "MAX_BYTES = length ?b - length (cstr ?b)" by (simp add: cstr_zeros)
  have d: "MAX_BYTES \<le> m" "NUL \<notin> set (take MAX_BYTES (avail es1))"
    using assms(4,6) es1(1) by simp_all
  obtain a where "chatReceiveHelper_loop recv_script es1 ?b (int m) 0 None = Some (Inl a)"
      "a \<in> {RecvOverrun, StrOverrun, StrUnterminated}"
    using helper_loop_overrun [OF a b c d, of None] by blast
  then show "\<exists>a. chatReceive recv_script es message = Some (Inl a)
      \<and> a \<in> {RecvOverrun, StrOverrun, StrUnterminated}"
    using es1(2) assms(3) by (simp add: chatReceiveHelper_def)
next
  fix es
  have "MAX_BYTES < length body" using assms(4,5) by simp
  then have "chatReceiveHelper recv_script (Segment body # es) (replicate MAX_BYTES NUL) (int m)
      = Some (Inl RecvOverrun)"
    using helper_first_read_overrun [OF assms(4)] by blast
  then show "chatReceive recv_script (Segment h # Segment body # es) message = Some (Inl RecvOverrun)"
    using chatReceive_body_segment [OF assms(1,2)] assms(3) by simp
qed

text \<open>
  An instance of C10: the header \<^verbatim>\<open>517\<close> and 517 letters, once with the header cut in
  two, once with header and body as one segment each.
\<close>

theorem long_body_overruns_arrays_witness:
  "length ''517'' = 3 \<and> NUL \<notin> set ''517'' \<and> strtol ''517'' = int 517 \<and> MAX_BYTES < 517
   \<and> 517 \<le> length (replicate 517 (CHR ''a''))
   \<and> NUL \<notin> set (take MAX_BYTES (replicate 517 (CHR ''a'')))
   \<and> avail [Segment ''51'', Segment (''7'' @ replicate 517 (CHR ''a''))] = ''517'' @ replicate 517 (CHR ''a'')
   \<and> (\<exists>a. chatReceive recv_script [Segment ''51'', Segment (''7'' @ replicate 517 (CHR ''a''))] (replicate 1032 NUL)
            = Some (Inl a) \<and> a \<in> {RecvOverrun, StrOverrun, StrUnterminated})
   \<and> chatReceive recv_script [Segment ''517'', Segment (replicate 517 (CHR ''a''))] (replicate 1032 NUL)
        = Some (Inl RecvOverrun)"
proof -
  have h: "length ''517'' = 3" "NUL \<notin> set ''517''" "strtol ''517'' = int 517" "MAX_BYTES < 517"
    "517 \<le> length (replicate 517 (CHR ''a''))"
    "NUL \<notin> set (take MAX_BYTES (replicate 517 (CHR ''a'')))"
    by (simp_all add: NUL_def MAX_BYTES_def strtol_def isspace_c_def isdigit_c_def digit_val_def
        clamp_long_def)
  have av: "avail [Segment ''51'', Segment (''7'' @ replicate 517 (CHR ''a''))]
      = ''517'' @ replicate 517 (CHR ''a'')"
    by simp
  show ?thesis
    using long_body_overruns_arrays [OF h, of "replicate 1032 NUL"] h av by blast
qed

text \<open>
  Counterexample to C10 as stated: a frame that announces 600 bytes and whose body has a
  NUL as its third byte, delivered in two reads of 300 bytes, overruns nothing; the call
  returns the string \<^verbatim>\<open>hi\<close>.
\<close>

theorem long_body_with_NUL_fits:
  "chatReceive recv_script
     [Segment ''600'', Segment (''hi'' @ replicate 298 NUL), Segment (replicate 300 NUL)]
     (replicate 516 NUL)
   = Some (Inr (300, ''hi'' @ replicate 514 NUL, []))"
  by code_simp

end
